theory Spec2Isabelle
  imports Main
begin

section \<open>Common JavaScript values\<close>

text \<open>
  Reading a property of \<open>null\<close> or \<open>undefined\<close> raises a \<open>TypeError\<close>; it is
  the only exception the modelled code can raise.
\<close>

datatype js_error = TypeError

text \<open>
  Modelled from the spec: the \<open>Vector\<close> of the widget toolkit is not under \<open>src/\<close>.
  "Out-of-range history navigation yields an undefined result, not an error": the
  vector keeps its items in a JavaScript array, \<open>at(index)\<close> reads \<open>array[index]\<close>
  and \<open>back\<close> reads \<open>array[length - 1]\<close>, so an index outside the array yields
  \<open>undefined\<close> (here \<open>None\<close>) and nothing is raised.
\<close>

definition vector_at :: "'a list \<Rightarrow> int \<Rightarrow> 'a option" where
  "vector_at xs i = (if 0 \<le> i \<and> i < int (length xs) then Some (xs ! nat i) else None)"

definition vector_back :: "'a list \<Rightarrow> 'a option" where
  "vector_back xs = vector_at xs (int (length xs) - 1)"

section \<open>ConsoleHistory\<close>

text \<open>
  The fields of \<open>ConsoleHistory\<close>: \<open>_history\<close> (\<open>None\<close> is \<open>null\<close>, the disposed
  object), \<open>_cursor\<close> and \<open>_kernel\<close> (a kernel is known by an identifier only).
\<close>

record ConsoleHistory =
  history :: "string list option"
  cursor :: int
  kernel :: "nat option"

text \<open>The field initialisers followed by the constructor called without a kernel.\<close>

definition new_ConsoleHistory :: ConsoleHistory where
  "new_ConsoleHistory = \<lparr>history = Some [], cursor = 0, kernel = None\<rparr>"

definition isDisposed :: "ConsoleHistory \<Rightarrow> bool" where
  "isDisposed h = (history h = None)"

definition dispose :: "ConsoleHistory \<Rightarrow> ConsoleHistory" where
  "dispose h = (if isDisposed h then h else h\<lparr>history := None\<rparr>)"

text \<open>
  \<open>back()\<close>: \<open>content = this._history.at(--this._cursor)\<close>, then
  \<open>this._cursor = Math.max(0, this._cursor)\<close>. The result is the value the returned
  promise resolves to, \<open>None\<close> for \<open>undefined\<close>. On a disposed object
  \<open>this._history.at\<close> raises before the cursor is touched.
\<close>

definition history_back :: "ConsoleHistory \<Rightarrow> js_error + (string option \<times> ConsoleHistory)" where
  "history_back h =
     (case history h of
        None \<Rightarrow> Inl TypeError
      | Some hist \<Rightarrow>
          let c = cursor h - 1;
              content = vector_at hist c
          in Inr (content, h\<lparr>cursor := max 0 c\<rparr>))"

text \<open>
  \<open>forward()\<close>: \<open>content = this._history.at(++this._cursor)\<close>, then
  \<open>this._cursor = Math.min(this._history.length, this._cursor)\<close>.
\<close>

definition history_forward :: "ConsoleHistory \<Rightarrow> js_error + (string option \<times> ConsoleHistory)" where
  "history_forward h =
     (case history h of
        None \<Rightarrow> Inl TypeError
      | Some hist \<Rightarrow>
          let c = cursor h + 1;
              content = vector_at hist c
          in Inr (content, h\<lparr>cursor := min (int (length hist)) c\<rparr>))"

text \<open>
  An item handed to \<open>push\<close> is a string or \<open>undefined\<close> (\<open>None\<close>); it is truthy
  when it is a non-empty string.
\<close>

definition truthy :: "string option \<Rightarrow> bool" where
  "truthy item = (case item of None \<Rightarrow> False | Some s \<Rightarrow> s \<noteq> [])"

text \<open>
  \<open>push(item)\<close>: \<open>if (item && item !== this._history.back) pushBack(item)\<close>, then
  \<open>this._cursor = this._history.length\<close> in every case. Both statements read
  \<open>this._history\<close>, so a disposed object raises.
\<close>

definition push :: "string option \<Rightarrow> ConsoleHistory \<Rightarrow> js_error + ConsoleHistory" where
  "push item h =
     (case history h of
        None \<Rightarrow> Inl TypeError
      | Some hist \<Rightarrow>
          let hist' = (case item of
                        None \<Rightarrow> hist
                      | Some s \<Rightarrow> if truthy item \<and> item \<noteq> vector_back hist then hist @ [s] else hist)
          in Inr (h\<lparr>history := Some hist', cursor := int (length hist')\<rparr>))"

text \<open>
  A history reply carries entries \<open>[session, line, input]\<close>. The loop of
  \<open>onHistory\<close> starts with \<open>last = ''\<close> and an empty vector, and for each entry
  pushes its third component when it differs from \<open>last\<close>, which it then becomes.
\<close>

type_synonym history_entry = "int \<times> int \<times> string"

fun onHistory_loop :: "history_entry list \<Rightarrow> string \<Rightarrow> string list \<Rightarrow> string list" where
  "onHistory_loop [] lastv hist = hist"
| "onHistory_loop (e # es) lastv hist =
     (let current = snd (snd e)
      in if current \<noteq> lastv then onHistory_loop es current (hist @ [current])
         else onHistory_loop es lastv hist)"

definition onHistory :: "history_entry list \<Rightarrow> ConsoleHistory \<Rightarrow> ConsoleHistory" where
  "onHistory reply h =
     (let hist = onHistory_loop reply [] []
      in h\<lparr>history := Some hist, cursor := int (length hist)\<rparr>)"

text \<open>
  The \<open>kernel\<close> setter: nothing when the value is the current one; a \<open>null\<close> kernel
  installs a fresh empty vector and leaves \<open>_cursor\<close> as it is; otherwise a history
  request is issued, whose reply reaches \<open>onHistory\<close> later.
\<close>

definition set_kernel :: "nat option \<Rightarrow> ConsoleHistory \<Rightarrow> ConsoleHistory" where
  "set_kernel newValue h =
     (if newValue = kernel h then h
      else if newValue = None then h\<lparr>kernel := newValue, history := Some []\<rparr>
      else h\<lparr>kernel := newValue\<rparr>)"

text \<open>The hist has no two adjacent equal entries.\<close>

fun no_adjacent_equal :: "string list \<Rightarrow> bool" where
  "no_adjacent_equal [] = True"
| "no_adjacent_equal [x] = True"
| "no_adjacent_equal (x # y # xs) = (x \<noteq> y \<and> no_adjacent_equal (y # xs))"

text \<open>A sequence of \<open>push\<close> calls; the first exception ends it.\<close>

fun push_all :: "string option list \<Rightarrow> ConsoleHistory \<Rightarrow> js_error + ConsoleHistory" where
  "push_all [] h = Inr h"
| "push_all (item # items) h =
     (case push item h of Inl e \<Rightarrow> Inl e | Inr h' \<Rightarrow> push_all items h')"

text \<open>A sequence of \<open>back()\<close> and \<open>forward()\<close> calls, the resolved values dropped.\<close>

datatype nav = Back | Forward

fun navigate :: "nav list \<Rightarrow> ConsoleHistory \<Rightarrow> js_error + ConsoleHistory" where
  "navigate [] h = Inr h"
| "navigate (Back # ns) h =
     (case history_back h of Inl e \<Rightarrow> Inl e | Inr (_, h') \<Rightarrow> navigate ns h')"
| "navigate (Forward # ns) h =
     (case history_forward h of Inl e \<Rightarrow> Inl e | Inr (_, h') \<Rightarrow> navigate ns h')"

text \<open>
  Any sequence of calls on a history: \<open>push\<close>, a history reply arriving, the
  \<open>kernel\<close> setter, \<open>back()\<close> and \<open>forward()\<close>.
\<close>

datatype history_call =
    Push "string option"
  | Reply "history_entry list"
  | SetKernel "nat option"
  | GoBack
  | GoForward

fun do_call :: "history_call \<Rightarrow> ConsoleHistory \<Rightarrow> js_error + ConsoleHistory" where
  "do_call (Push item) h = push item h"
| "do_call (Reply reply) h = Inr (onHistory reply h)"
| "do_call (SetKernel k) h = Inr (set_kernel k h)"
| "do_call GoBack h = map_sum id snd (history_back h)"
| "do_call GoForward h = map_sum id snd (history_forward h)"

fun history_calls :: "history_call list \<Rightarrow> ConsoleHistory \<Rightarrow> js_error + ConsoleHistory" where
  "history_calls [] h = Inr h"
| "history_calls (c # cs) h =
     (case do_call c h of Inl e \<Rightarrow> Inl e | Inr h' \<Rightarrow> history_calls cs h')"

section \<open>ConsolePanel\<close>

text \<open>
  How a promise settles. The kernel-spec fetch, the dialog and the session shutdown
  are promises of collaborators; the panel only chains on them.
\<close>

datatype 'a settled = Fulfilled 'a | Rejected

text \<open>
  \<open>promise.then(onFulfilled)\<close> with no rejection handler: a fulfilled promise runs the
  handler and takes the state of what it returns, a rejected one skips the handler and
  the rejection is passed on. The second component is the state the handlers act on.
\<close>

definition promise_then ::
  "'a settled \<times> 's \<Rightarrow> ('a \<Rightarrow> 's \<Rightarrow> 'b settled \<times> 's) \<Rightarrow> 'b settled \<times> 's" where
  "promise_then pr onFulfilled =
     (case pr of
        (Fulfilled v, s) \<Rightarrow> onFulfilled v s
      | (Rejected, s) \<Rightarrow> (Rejected, s))"

text \<open>
  The panel: whether the widget is disposed, whether its console widget is disposed
  (\<open>_console\<close> is then \<open>null\<close>), and whether the toolkit's default close handler
  (\<open>super.onCloseRequest\<close>) has run.
\<close>

record ConsolePanel =
  disposed :: bool
  console_disposed :: bool
  close_handled :: bool

text \<open>
  What a close request sees and leaves behind: the panel, the body of the dialog shown
  and whether \<open>session.shutdown()\<close> was called.
\<close>

record close_state =
  panel :: ConsolePanel
  dialog_body :: "string option"
  shutdown_issued :: bool

text \<open>
  The collaborators: \<open>session.kernel\<close> (\<open>None\<close> for no kernel, else how
  \<open>getKernelSpec()\<close> settles, with the spec's \<open>display_name\<close>), how \<open>showDialog\<close>
  settles (with the text of the button, \<open>None\<close> for a falsy value) and how
  \<open>session.shutdown()\<close> settles.
\<close>

record close_env =
  session_kernel :: "string settled option"
  dialog_answer :: "string option settled"
  shutdown_answer :: "unit settled"

definition panel_dispose :: "ConsolePanel \<Rightarrow> ConsolePanel" where
  "panel_dispose p =
     (if disposed p then p else p\<lparr>console_disposed := True, disposed := True\<rparr>)"

definition super_onCloseRequest :: "ConsolePanel \<Rightarrow> ConsolePanel" where
  "super_onCloseRequest p = p\<lparr>close_handled := True\<rparr>"

text \<open>
  \<open>onCloseRequest\<close>. The handler first reads \<open>this.content.session\<close>; on a
  disposed panel \<open>this.content\<close> (the field \<open>_console\<close>) is \<open>null\<close> and the read
  raises before anything else happens. Without a kernel the panel is disposed, and the
  statement after the \<open>if\<close> then reads \<open>getKernelSpec\<close> of \<open>null\<close>: the handler
  raises. With a kernel the result is how the last promise of the chain settles.
\<close>

definition onCloseRequest :: "close_env \<Rightarrow> close_state \<Rightarrow> (js_error + unit settled) \<times> close_state" where
  "onCloseRequest env w =
     (if console_disposed (panel w) then (Inl TypeError, w)
      else
        (let w1 = (if session_kernel env = None then w\<lparr>panel := panel_dispose (panel w)\<rparr> else w)
         in case session_kernel env of
              None \<Rightarrow> (Inl TypeError, w1)
            | Some spec \<Rightarrow>
                (let chain =
                   promise_then
                     (promise_then
                       (promise_then (spec, w1)
                         (\<lambda>name s. (dialog_answer env,
                                     s\<lparr>dialog_body := Some (''Shut down '' @ name @ ''?'')\<rparr>)))
                       (\<lambda>value s. if value = Some ''OK''
                                   then (shutdown_answer env, s\<lparr>shutdown_issued := True\<rparr>)
                                   else (Fulfilled (), s)))
                     (\<lambda>_ s. (Fulfilled (),
                              s\<lparr>panel := panel_dispose (super_onCloseRequest (panel s))\<rparr>))
                 in (Inr (fst chain), snd chain))))"

text \<open>A panel in use, before any close request.\<close>

definition open_panel :: close_state where
  "open_panel =
     \<lparr>panel = \<lparr>disposed = False, console_disposed = False, close_handled = False\<rparr>,
      dialog_body = None, shutdown_issued = False\<rparr>"

section \<open>The notebook widgets: data\<close>

text \<open>A cell model: its identity, its \<open>type\<close> and the lines of its text.\<close>

datatype cell_type = Code | Markdown | Raw

record ICellModel =
  cell_id :: nat
  cell_type :: cell_type
  source :: "string list"

text \<open>
  A notebook model as the widget reads it: its identity, its \<open>cells\<close> and the
  mimetype the renderer's \<open>getCodeMimetype\<close> derives from its language metadata.
\<close>

record INotebookModel =
  model_id :: nat
  cells :: "ICellModel list"
  code_mimetype :: string

text \<open>
  Modelled from the spec: the cell editor (\<open>cells/editor\<close>) is not under \<open>src/\<close>. It
  positions its cursor "by (line, column) or absolute offset": \<open>setCursor(line, ch)\<close>
  leaves \<open>LineCh line ch\<close>, \<open>setCursorPosition(pos)\<close> leaves \<open>Position pos\<close>, and
  \<open>getLastLine()\<close> is the index of the last line of the text.
\<close>

datatype cursor_position = LineCh int int | Position int

text \<open>
  A cell widget object: the model it shows, its class (\<open>CodeCellWidget\<close>,
  \<open>MarkdownCellWidget\<close> or \<open>RawCellWidget\<close>), its mimetype, whether it is rendered,
  the attached \<open>selected\<close> property, whether it is disposed, and its editor's text
  and cursor.
\<close>

record BaseCellWidget =
  widget_model :: ICellModel
  widget_class :: cell_type
  mimetype :: string
  rendered :: bool
  selected :: bool
  widget_disposed :: bool
  editor_lines :: "string list"
  editor_cursor :: cursor_position

definition getLastLine :: "BaseCellWidget \<Rightarrow> int" where
  "getLastLine w = int (length (editor_lines w)) - 1"

text \<open>The cursor position at the end of the last line of a widget's editor.\<close>

definition end_of_last_line :: "BaseCellWidget \<Rightarrow> cursor_position" where
  "end_of_last_line w = LineCh (getLastLine w) (int (length (last (editor_lines w))))"

text \<open>
  A reference to a cell widget: \<open>null\<close>, \<open>undefined\<close> or the address of a widget
  object in the store. Widget objects are compared by reference (\<open>!==\<close>).
\<close>

datatype widget_ref = Null | Undefined | Widget nat

datatype NotebookMode = command | edit

datatype EdgeLocation = top_edge | bottom_edge

text \<open>
  What the notebook sends out, in order: the three signals of \<open>Notebook\<close> with their
  arguments, \<open>modelChanged\<close>, an update request posted by \<open>this.update()\<close>, and an
  activate request sent by \<open>sendMessage\<close>.
\<close>

datatype signal =
    ActiveCellChanged widget_ref
  | StateChanged_mode NotebookMode NotebookMode
  | StateChanged_activeCellIndex int int
  | SelectionChanged
  | ModelChanged
  | UpdateRequest
  | ActivateRequest

text \<open>
  The state of a notebook widget. \<open>nb_interactive\<close> is the object's class
  (\<open>Notebook\<close> when true, \<open>StaticNotebook\<close> when false) and selects the hooks
  \<open>onCellInserted\<close>, \<open>onCellMoved\<close>, \<open>onCellRemoved\<close> and \<open>onModelChanged\<close>.
  \<open>nb_store\<close> holds every widget object created, at its address; \<open>nb_widgets\<close> is
  \<open>layout.widgets\<close>, the addresses of the children in order. The other fields are
  \<open>_model\<close> (with the current content of the model object), \<open>_mimetype\<close>,
  \<open>_activeCellIndex\<close>, \<open>_activeCell\<close>, \<open>_mode\<close> and \<open>_isActive\<close>.
\<close>

record Notebook =
  nb_interactive :: bool
  nb_store :: "BaseCellWidget list"
  nb_widgets :: "nat list"
  nb_model :: "INotebookModel option"
  nb_mimetype :: string
  nb_activeCellIndex :: int
  nb_activeCell :: widget_ref
  nb_mode :: NotebookMode
  nb_isActive :: bool
  nb_trace :: "signal list"

definition new_Notebook :: "bool \<Rightarrow> Notebook" where
  "new_Notebook interactive =
     \<lparr>nb_interactive = interactive, nb_store = [], nb_widgets = [], nb_model = None,
      nb_mimetype = ''text/plain'', nb_activeCellIndex = - 1, nb_activeCell = Null,
      nb_mode = command, nb_isActive = False, nb_trace = []\<rparr>"

definition emit :: "signal \<Rightarrow> Notebook \<Rightarrow> Notebook" where
  "emit sig nb = nb\<lparr>nb_trace := nb_trace nb @ [sig]\<rparr>"

definition update :: "Notebook \<Rightarrow> Notebook" where
  "update nb = emit UpdateRequest nb"

text \<open>The number of cells of the model, \<open>None\<close> without a model.\<close>

definition cell_count :: "Notebook \<Rightarrow> nat option" where
  "cell_count nb = map_option (\<lambda>m. length (cells m)) (nb_model nb)"

section \<open>The panel layout of the toolkit\<close>

text \<open>
  \<open>indexOf\<close>: the index of the first occurrence, \<open>-1\<close> when there is none.
\<close>

definition indexOf :: "nat list \<Rightarrow> nat \<Rightarrow> int" where
  "indexOf ws a = (if a \<in> set ws then int (length (takeWhile (\<lambda>x. x \<noteq> a) ws)) else - 1)"

text \<open>
  Modelled from the spec: the panel layout of the widget toolkit is not under
  \<open>src/\<close>. "Add inserts one widget at the given index; move relocates the widget at
  the given index without reconstructing it": both go through
  \<open>PanelLayout.insertWidget(index, widget)\<close>. The index is clamped to
  \<open>[0, length]\<close>. A widget that is not a child is inserted there. A widget that is
  already a child is moved: the target is lowered by one at the end of the list,
  nothing happens when it is the current index, and otherwise the widget is taken out
  and put back at the target, the others keeping their order.
\<close>

definition insertWidget :: "int \<Rightarrow> nat \<Rightarrow> nat list \<Rightarrow> nat list" where
  "insertWidget index a ws =
     (let i = indexOf ws a;
          j = max 0 (min index (int (length ws)))
      in if i = - 1 then take (nat j) ws @ [a] @ drop (nat j) ws
         else
           (let j' = (if j = int (length ws) then j - 1 else j)
            in if i = j' then ws
               else (let rest = take (nat i) ws @ drop (nat i + 1) ws
                     in take (nat j') rest @ [a] @ drop (nat j') rest)))"

text \<open>
  \<open>widget.parent = null\<close> takes the widget out of the layout of its parent
  (\<open>removeWidget\<close>: the first occurrence, if any).
\<close>

definition removeWidget :: "nat \<Rightarrow> nat list \<Rightarrow> nat list" where
  "removeWidget a ws = remove1 a ws"

section \<open>Notebook: active cell, selection and mode\<close>

definition childAt :: "int \<Rightarrow> Notebook \<Rightarrow> widget_ref" where
  "childAt index nb =
     (case vector_at (nb_widgets nb) index of None \<Rightarrow> Undefined | Some a \<Rightarrow> Widget a)"

text \<open>The getter of \<open>activeCellIndex\<close>.\<close>

definition activeCellIndex :: "Notebook \<Rightarrow> int" where
  "activeCellIndex nb =
     (case nb_model nb of
        None \<Rightarrow> - 1
      | Some m \<Rightarrow> if length (cells m) \<noteq> 0 then nb_activeCellIndex nb else - 1)"

text \<open>
  The setter of \<open>activeCellIndex\<close>: an update request; the value forced to \<open>-1\<close>
  without a model or without cells, else clamped to the cells of the model; the
  child at the new index becomes \<open>_activeCell\<close>, with \<open>activeCellChanged\<close>, when it is
  another reference; \<open>stateChanged\<close> when the index is another number.
\<close>

definition set_activeCellIndex :: "int \<Rightarrow> Notebook \<Rightarrow> Notebook" where
  "set_activeCellIndex v nb =
     (let nb1 = update nb;
          oldValue = nb_activeCellIndex nb1;
          newValue = (case nb_model nb1 of
                        None \<Rightarrow> - 1
                      | Some m \<Rightarrow>
                          if length (cells m) = 0 then - 1
                          else min (max v 0) (int (length (cells m)) - 1));
          nb2 = nb1\<lparr>nb_activeCellIndex := newValue\<rparr>;
          cell = childAt newValue nb2;
          nb3 = (if cell \<noteq> nb_activeCell nb2
                 then emit (ActiveCellChanged cell) (nb2\<lparr>nb_activeCell := cell\<rparr>)
                 else nb2)
      in if newValue = oldValue then nb3
         else emit (StateChanged_activeCellIndex oldValue newValue) nb3)"

text \<open>
  \<open>deselect(widget)\<close>: nothing when the widget is not selected; else the property is
  cleared, \<open>selectionChanged\<close> is emitted and an update is requested.
\<close>

definition deselect :: "nat \<Rightarrow> Notebook \<Rightarrow> Notebook" where
  "deselect a nb =
     (if \<not> selected (nb_store nb ! a) then nb
      else update (emit SelectionChanged
             (nb\<lparr>nb_store := (nb_store nb)[a := (nb_store nb ! a)\<lparr>selected := False\<rparr>]\<rparr>)))"

definition select :: "nat \<Rightarrow> Notebook \<Rightarrow> Notebook" where
  "select a nb =
     (if selected (nb_store nb ! a) then nb
      else update (emit SelectionChanged
             (nb\<lparr>nb_store := (nb_store nb)[a := (nb_store nb ! a)\<lparr>selected := True\<rparr>]\<rparr>)))"

definition isSelected :: "nat \<Rightarrow> Notebook \<Rightarrow> bool" where
  "isSelected a nb = (if Widget a = nb_activeCell nb then True else selected (nb_store nb ! a))"

text \<open>The loop of the \<open>mode\<close> setter over the children, front to back.\<close>

fun deselect_each :: "nat list \<Rightarrow> Notebook \<Rightarrow> Notebook" where
  "deselect_each [] nb = nb"
| "deselect_each (a # as) nb = deselect_each as (deselect a nb)"

text \<open>
  \<open>sendMessage(this, WidgetMessage.ActivateRequest)\<close> is delivered at once to
  \<open>onActivateRequest\<close>, which sets \<open>_isActive\<close> and requests an update.
\<close>

definition onActivateRequest :: "Notebook \<Rightarrow> Notebook" where
  "onActivateRequest nb = update (nb\<lparr>nb_isActive := True\<rparr>)"

definition send_ActivateRequest :: "Notebook \<Rightarrow> Notebook" where
  "send_ActivateRequest nb = onActivateRequest (emit ActivateRequest nb)"

text \<open>
  The setter of \<open>mode\<close>: an update request; nothing more when the mode is the
  current one; else the mode is stored and \<open>stateChanged\<close> emitted; nothing more
  without an active cell; for \<open>edit\<close> every child is deselected, an active markdown
  cell is set unrendered, and activation is requested when the notebook is not active.
\<close>

definition set_mode :: "NotebookMode \<Rightarrow> Notebook \<Rightarrow> Notebook" where
  "set_mode newValue nb =
     (let nb1 = update nb
      in if newValue = nb_mode nb1 then nb1
         else
           (let oldValue = nb_mode nb1;
                nb2 = emit (StateChanged_mode oldValue newValue) (nb1\<lparr>nb_mode := newValue\<rparr>)
            in case nb_activeCell nb2 of
                 Null \<Rightarrow> nb2
               | Undefined \<Rightarrow> nb2
               | Widget a \<Rightarrow>
                   if newValue = edit then
                     (let nb3 = deselect_each (nb_widgets nb2) nb2;
                          nb4 = (if widget_class (nb_store nb3 ! a) = Markdown
                                 then nb3\<lparr>nb_store :=
                                        (nb_store nb3)[a := (nb_store nb3 ! a)\<lparr>rendered := False\<rparr>]\<rparr>
                                 else nb3)
                      in if \<not> nb_isActive nb4 then send_ActivateRequest nb4 else nb4)
                   else nb2))"

definition onDeactivateRequest :: "Notebook \<Rightarrow> Notebook" where
  "onDeactivateRequest nb = set_mode command (nb\<lparr>nb_isActive := False\<rparr>)"

text \<open>
  \<open>_onEdgeRequest\<close>. \<open>this.activeCellIndex--\<close> reads the getter and hands the value
  less one to the setter. When the index went down, the editor of the active cell
  gets \<open>setCursor(getLastLine(), 0)\<close>; when it went up, \<open>setCursorPosition(0)\<close>.
  Reading \<open>editor\<close> of an active cell that is \<open>null\<close> or \<open>undefined\<close> raises.
\<close>

definition set_editor_cursor :: "nat \<Rightarrow> cursor_position \<Rightarrow> Notebook \<Rightarrow> Notebook" where
  "set_editor_cursor a pos nb =
     nb\<lparr>nb_store := (nb_store nb)[a := (nb_store nb ! a)\<lparr>editor_cursor := pos\<rparr>]\<rparr>"

definition onEdgeRequest :: "EdgeLocation \<Rightarrow> Notebook \<Rightarrow> js_error + Notebook" where
  "onEdgeRequest location nb =
     (let prev = activeCellIndex nb
      in if location = top_edge then
           (let nb1 = set_activeCellIndex (activeCellIndex nb - 1) nb
            in if activeCellIndex nb1 < prev then
                 (case nb_activeCell nb1 of
                    Widget a \<Rightarrow>
                      (let lastLine = getLastLine (nb_store nb1 ! a)
                       in Inr (set_editor_cursor a (LineCh lastLine 0) nb1))
                  | _ \<Rightarrow> Inl TypeError)
               else Inr nb1)
         else
           (let nb1 = set_activeCellIndex (activeCellIndex nb + 1) nb
            in if activeCellIndex nb1 > prev then
                 (case nb_activeCell nb1 of
                    Widget a \<Rightarrow> Inr (set_editor_cursor a (Position 0) nb1)
                  | _ \<Rightarrow> Inl TypeError)
               else Inr nb1))"

section \<open>StaticNotebook: mirroring the cells of the model\<close>

text \<open>The hooks, chosen by the class of the object; \<open>StaticNotebook\<close>'s do nothing.\<close>

definition onCellInserted :: "int \<Rightarrow> nat \<Rightarrow> Notebook \<Rightarrow> Notebook" where
  "onCellInserted index a nb =
     (if nb_interactive nb then set_activeCellIndex (activeCellIndex nb) nb else nb)"

definition onCellMoved :: "int \<Rightarrow> int \<Rightarrow> Notebook \<Rightarrow> Notebook" where
  "onCellMoved fromIndex toIndex nb =
     (if nb_interactive nb
      then (if fromIndex = activeCellIndex nb then set_activeCellIndex toIndex nb else nb)
      else nb)"

definition onCellRemoved :: "nat \<Rightarrow> Notebook \<Rightarrow> Notebook" where
  "onCellRemoved a nb =
     (if nb_interactive nb
      then (let nb1 = set_activeCellIndex (activeCellIndex nb) nb
            in if isSelected a nb1 then emit SelectionChanged nb1 else nb1)
      else nb)"

definition onModelChanged :: "Notebook \<Rightarrow> Notebook" where
  "onModelChanged nb = (if nb_interactive nb then set_activeCellIndex 0 nb else nb)"

text \<open>
  The renderer's factories are supplied by the application; what the notebook relies
  on is the class of the widget they return for each cell type. A new widget shows
  the text of its model, is rendered and is not selected.
\<close>

definition createCell :: "ICellModel \<Rightarrow> BaseCellWidget" where
  "createCell cell =
     \<lparr>widget_model = cell,
      widget_class = (case cell_type cell of Code \<Rightarrow> Code | Markdown \<Rightarrow> Markdown | Raw \<Rightarrow> Raw),
      mimetype = ''text/plain'', rendered = True, selected = False, widget_disposed = False,
      editor_lines = source cell, editor_cursor = Position 0\<rparr>"

text \<open>
  \<open>_updateCell(index)\<close>: the child at the index, when it is a code cell widget, gets
  the notebook's mimetype; \<open>undefined\<close> is no code cell widget, and the renderer's
  \<open>updateCell\<close> does nothing.
\<close>

definition updateCell :: "int \<Rightarrow> Notebook \<Rightarrow> Notebook" where
  "updateCell index nb =
     (case vector_at (nb_widgets nb) index of
        None \<Rightarrow> nb
      | Some a \<Rightarrow>
          if widget_class (nb_store nb ! a) = Code
          then nb\<lparr>nb_store := (nb_store nb)[a := (nb_store nb ! a)\<lparr>mimetype := nb_mimetype nb\<rparr>]\<rparr>
          else nb)"

text \<open>\<open>_insertCell(index, cell)\<close>: a new widget object, inserted into the layout.\<close>

definition insertCell :: "int \<Rightarrow> ICellModel \<Rightarrow> Notebook \<Rightarrow> Notebook" where
  "insertCell index cell nb =
     (let a = length (nb_store nb);
          nb1 = nb\<lparr>nb_store := nb_store nb @ [createCell cell]\<rparr>;
          nb2 = nb1\<lparr>nb_widgets := insertWidget index a (nb_widgets nb1)\<rparr>;
          nb3 = updateCell index nb2
      in onCellInserted index a nb3)"

text \<open>
  \<open>_moveCell(fromIndex, toIndex)\<close>:
  \<open>layout.insertWidget(toIndex, layout.widgets.at(fromIndex))\<close>, which raises when
  there is no widget at \<open>fromIndex\<close> (the layout sets \<open>parent\<close> of \<open>undefined\<close>).
\<close>

definition moveCell :: "int \<Rightarrow> int \<Rightarrow> Notebook \<Rightarrow> js_error + Notebook" where
  "moveCell fromIndex toIndex nb =
     (case vector_at (nb_widgets nb) fromIndex of
        None \<Rightarrow> Inl TypeError
      | Some a \<Rightarrow>
          Inr (onCellMoved fromIndex toIndex
                 (nb\<lparr>nb_widgets := insertWidget toIndex a (nb_widgets nb)\<rparr>)))"

text \<open>
  \<open>_removeCell(index)\<close>: \<open>widget.parent = null\<close> (raising when there is no widget
  at the index), the hook, then \<open>widget.dispose()\<close>.
\<close>

definition removeCell :: "int \<Rightarrow> Notebook \<Rightarrow> js_error + Notebook" where
  "removeCell index nb =
     (case vector_at (nb_widgets nb) index of
        None \<Rightarrow> Inl TypeError
      | Some a \<Rightarrow>
          (let nb1 = nb\<lparr>nb_widgets := removeWidget a (nb_widgets nb)\<rparr>;
               nb2 = onCellRemoved a nb1
           in Inr (nb2\<lparr>nb_store :=
                     (nb_store nb2)[a := (nb_store nb2 ! a)\<lparr>widget_disposed := True\<rparr>]\<rparr>)))"

text \<open>
  A structural change of the cell list, as the handler reads it: \<open>add\<close> with
  \<open>newIndex\<close> and \<open>newValue\<close>; \<open>move\<close> with \<open>oldIndex\<close> and \<open>newIndex\<close>;
  \<open>remove\<close> with \<open>oldIndex\<close>; \<open>replace\<close> with \<open>oldIndex\<close>, \<open>oldValue\<close>,
  \<open>newIndex\<close> and \<open>newValue\<close>; \<open>set\<close> with \<open>newIndex\<close> and \<open>newValue\<close>; and any
  other type.
\<close>

datatype IListChangedArgs =
    ListAdd int ICellModel
  | ListMove int int
  | ListRemove int
  | ListReplace int "ICellModel list" int "ICellModel list"
  | ListSet int ICellModel
  | ListOther

text \<open>The two loops of the \<open>replace\<close> case.\<close>

fun removeCell_times :: "nat \<Rightarrow> int \<Rightarrow> Notebook \<Rightarrow> js_error + Notebook" where
  "removeCell_times 0 index nb = Inr nb"
| "removeCell_times (Suc n) index nb =
     (case removeCell index nb of
        Inl e \<Rightarrow> Inl e
      | Inr nb' \<Rightarrow> removeCell_times n index nb')"

text \<open>
  \<open>for (let i = newValues.length; i > 0; i--) _insertCell(newIndex, newValues[i - 1])\<close>:
  the new cells from the last to the first, each at \<open>newIndex\<close>.
\<close>

fun insertCell_each :: "int \<Rightarrow> ICellModel list \<Rightarrow> Notebook \<Rightarrow> Notebook" where
  "insertCell_each index [] nb = nb"
| "insertCell_each index (c # cs) nb = insertCell_each index cs (insertCell index c nb)"

text \<open>\<open>_onCellsChanged\<close>; note the order of the arguments in the \<open>move\<close> case.\<close>

fun onCellsChanged :: "IListChangedArgs \<Rightarrow> Notebook \<Rightarrow> js_error + Notebook" where
  "onCellsChanged (ListAdd newIndex newValue) nb = Inr (insertCell newIndex newValue nb)"
| "onCellsChanged (ListMove oldIndex newIndex) nb = moveCell newIndex oldIndex nb"
| "onCellsChanged (ListRemove oldIndex) nb = removeCell oldIndex nb"
| "onCellsChanged (ListReplace oldIndex oldValues newIndex newValues) nb =
     (case removeCell_times (length oldValues) oldIndex nb of
        Inl e \<Rightarrow> Inl e
      | Inr nb' \<Rightarrow> Inr (insertCell_each newIndex (rev newValues) nb'))"
| "onCellsChanged (ListSet newIndex newValue) nb =
     (case removeCell newIndex nb of
        Inl e \<Rightarrow> Inl e
      | Inr nb' \<Rightarrow> Inr (insertCell newIndex newValue nb'))"
| "onCellsChanged ListOther nb = Inr nb"

text \<open>
  Modelled from the spec: the observable list of the model (\<open>common/observablelist\<close>)
  is not under \<open>src/\<close>. It is an "ordered collection" whose changes carry
  \<open>{kind, oldIndex, newIndex, oldValue, newValue}\<close>: \<open>add\<close> puts the new value at
  \<open>newIndex\<close>; \<open>move\<close> takes the item at \<open>oldIndex\<close> out and puts it back at
  \<open>newIndex\<close>; \<open>remove\<close> takes the item at \<open>oldIndex\<close> out; \<open>replace\<close> puts the
  new values in the place of the run of old values at \<open>oldIndex\<close>; \<open>set\<close> overwrites
  the item at \<open>newIndex\<close>.
\<close>

fun apply_change :: "IListChangedArgs \<Rightarrow> ICellModel list \<Rightarrow> ICellModel list" where
  "apply_change (ListAdd newIndex newValue) cs =
     take (nat newIndex) cs @ [newValue] @ drop (nat newIndex) cs"
| "apply_change (ListMove oldIndex newIndex) cs =
     (let rest = take (nat oldIndex) cs @ drop (nat oldIndex + 1) cs
      in take (nat newIndex) rest @ [cs ! nat oldIndex] @ drop (nat newIndex) rest)"
| "apply_change (ListRemove oldIndex) cs = take (nat oldIndex) cs @ drop (nat oldIndex + 1) cs"
| "apply_change (ListReplace oldIndex oldValues newIndex newValues) cs =
     take (nat oldIndex) cs @ newValues @ drop (nat oldIndex + length oldValues) cs"
| "apply_change (ListSet newIndex newValue) cs = cs[nat newIndex := newValue]"
| "apply_change ListOther cs = cs"

text \<open>
  The model changes its cell list and then notifies the notebook, which handles the
  change before the next one is made.
\<close>

definition deliver :: "IListChangedArgs \<Rightarrow> Notebook \<Rightarrow> js_error + Notebook" where
  "deliver args nb =
     onCellsChanged args
       (nb\<lparr>nb_model := map_option (\<lambda>m. m\<lparr>cells := apply_change args (cells m)\<rparr>) (nb_model nb)\<rparr>)"

fun deliver_all :: "IListChangedArgs list \<Rightarrow> Notebook \<Rightarrow> js_error + Notebook" where
  "deliver_all [] nb = Inr nb"
| "deliver_all (args # rest) nb =
     (case deliver args nb of Inl e \<Rightarrow> Inl e | Inr nb' \<Rightarrow> deliver_all rest nb')"

text \<open>
  The cell models the children show, in the order of the children; the children
  mirror the cells of the model when these are the cells of the model.
\<close>

definition shown :: "Notebook \<Rightarrow> ICellModel list" where
  "shown nb = map (\<lambda>a. widget_model (nb_store nb ! a)) (nb_widgets nb)"

definition mirrors :: "Notebook \<Rightarrow> bool" where
  "mirrors nb =
     (case nb_model nb of
        None \<Rightarrow> nb_widgets nb = []
      | Some m \<Rightarrow> shown nb = cells m)"

text \<open>
  A notebook showing a model, built the way \<open>_onModelChanged\<close> builds it for a
  notebook that had no model: the mimetype of the model, then one widget per cell
  from the first to the last, each inserted at its index, then the hook.
\<close>

fun insertCell_from :: "int \<Rightarrow> ICellModel list \<Rightarrow> Notebook \<Rightarrow> Notebook" where
  "insertCell_from i [] nb = nb"
| "insertCell_from i (c # cs) nb = insertCell_from (i + 1) cs (insertCell i c nb)"

definition show_model :: "INotebookModel \<Rightarrow> Notebook \<Rightarrow> Notebook" where
  "show_model m nb =
     (let nb1 = nb\<lparr>nb_model := Some m\<rparr>;
          nb2 = nb1\<lparr>nb_mimetype := code_mimetype m\<rparr>;
          nb3 = insertCell_from 0 (cells m) nb2
      in emit ModelChanged (onModelChanged nb3))"

text \<open>What a step has sent out: the part of the trace added between two states.\<close>

definition new_signals :: "Notebook \<Rightarrow> Notebook \<Rightarrow> signal list" where
  "new_signals nb nb' = drop (length (nb_trace nb)) (nb_trace nb')"

text \<open>
  The children are objects of the store. Every state built by the operations above
  has this property; the theorems about widgets assume it.
\<close>

definition children_in_store :: "Notebook \<Rightarrow> bool" where
  "children_in_store nb = (\<forall>a\<in>set (nb_widgets nb). a < length (nb_store nb))"

text \<open>No widget is a child twice, and every child is an object of the store.\<close>

definition tidy :: "Notebook \<Rightarrow> bool" where
  "tidy nb = (distinct (nb_widgets nb) \<and> children_in_store nb)"

text \<open>Taking the item at \<open>i\<close> out of a list and putting it back at \<open>j\<close>.\<close>

definition list_move :: "nat \<Rightarrow> nat \<Rightarrow> 'a list \<Rightarrow> 'a list" where
  "list_move i j xs =
     (let rest = take i xs @ drop (Suc i) xs in take j rest @ [xs ! i] @ drop j rest)"

text \<open>
  A change the model can make to a list \<open>cs\<close> of cells: its indices are within the
  list, and a \<open>replace\<close> puts the new run where the old one was.
\<close>

fun valid_change :: "IListChangedArgs \<Rightarrow> ICellModel list \<Rightarrow> bool" where
  "valid_change (ListAdd newIndex newValue) cs = (0 \<le> newIndex \<and> newIndex \<le> int (length cs))"
| "valid_change (ListMove oldIndex newIndex) cs =
     (0 \<le> oldIndex \<and> oldIndex < int (length cs) \<and> 0 \<le> newIndex \<and> newIndex < int (length cs))"
| "valid_change (ListRemove oldIndex) cs = (0 \<le> oldIndex \<and> oldIndex < int (length cs))"
| "valid_change (ListReplace oldIndex oldValues newIndex newValues) cs =
     (0 \<le> oldIndex \<and> newIndex = oldIndex \<and> nat oldIndex + length oldValues \<le> length cs)"
| "valid_change (ListSet newIndex newValue) cs = (0 \<le> newIndex \<and> newIndex < int (length cs))"
| "valid_change ListOther cs = True"

text \<open>A move over more than one position.\<close>

fun moves_far :: "IListChangedArgs \<Rightarrow> bool" where
  "moves_far (ListMove oldIndex newIndex) = (1 < \<bar>oldIndex - newIndex\<bar>)"
| "moves_far _ = False"

text \<open>
  A sequence of changes, each valid for the cells the changes before it have left, and
  none a move over more than one position.
\<close>

fun valid_changes :: "IListChangedArgs list \<Rightarrow> ICellModel list \<Rightarrow> bool" where
  "valid_changes [] cs = True"
| "valid_changes (args # rest) cs =
     (valid_change args cs \<and> \<not> moves_far args \<and> valid_changes rest (apply_change args cs))"

section \<open>An example notebook\<close>

text \<open>A model of three cells: a code cell, a markdown cell and a raw cell.\<close>

definition cell_a :: ICellModel where
  "cell_a = \<lparr>cell_id = 0, cell_type = Code, source = [''ab'']\<rparr>"

definition cell_b :: ICellModel where
  "cell_b = \<lparr>cell_id = 1, cell_type = Markdown, source = [''cd'']\<rparr>"

definition cell_c :: ICellModel where
  "cell_c = \<lparr>cell_id = 2, cell_type = Raw, source = [''ef'']\<rparr>"

definition three_cells :: INotebookModel where
  "three_cells = \<lparr>model_id = 0, cells = [cell_a, cell_b, cell_c], code_mimetype = ''text/x-python''\<rparr>"

section \<open>Properties of ConsoleHistory\<close>

text \<open>The theorems below speak of a non-disposed history through its log.\<close>

lemma not_disposed_iff: "\<not> isDisposed h \<longleftrightarrow> (\<exists>hist. history h = Some hist)"
  by (simp add: isDisposed_def)

lemma dispose_idempotent: "isDisposed (dispose h) \<and> dispose (dispose h) = dispose h"
  by (simp add: dispose_def isDisposed_def)

lemma vector_at_last: "xs \<noteq> [] \<Longrightarrow> vector_at xs (int (length xs) - 1) = Some (last xs)"
  by (cases xs rule: rev_cases) (auto simp: vector_at_def nth_append)

lemma vector_back_eq: "vector_back xs = (if xs = [] then None else Some (last xs))"
  by (simp add: vector_back_def vector_at_last) (simp add: vector_at_def)

lemma no_adjacent_equal_snoc:
  "no_adjacent_equal (xs @ [x]) \<longleftrightarrow> no_adjacent_equal xs \<and> (xs = [] \<or> last xs \<noteq> x)"
  by (induction xs rule: no_adjacent_equal.induct) auto

lemma push_step:
  "history h = Some hist \<Longrightarrow>
   push item h =
     Inr (h\<lparr>history := Some (if truthy item \<and> item \<noteq> vector_back hist then hist @ [the item] else hist),
            cursor := int (length (if truthy item \<and> item \<noteq> vector_back hist
                                   then hist @ [the item] else hist))\<rparr>)"
  by (auto simp: push_def truthy_def split: option.splits)

lemma push_preserves:
  assumes "history h = Some hist" and "no_adjacent_equal hist"
  shows "\<exists>h' hist'. push item h = Inr h' \<and> history h' = Some hist' \<and> no_adjacent_equal hist'"
  using assms
  by (auto simp: push_def truthy_def vector_back_eq no_adjacent_equal_snoc split: option.splits)

lemma push_all_preserves:
  "history h = Some hist \<Longrightarrow> no_adjacent_equal hist \<Longrightarrow>
   \<exists>h' hist'. push_all items h = Inr h' \<and> history h' = Some hist' \<and> no_adjacent_equal hist'"
proof (induction items arbitrary: h hist)
  case Nil
  then show ?case by simp
next
  case (Cons item items)
  from push_preserves [OF Cons.prems, of item]
  obtain h1 hist1 where s: "push item h = Inr h1" "history h1 = Some hist1" "no_adjacent_equal hist1"
    by blast
  from Cons.IH [OF s(2) s(3)] s(1) show ?case by simp
qed

lemma back_at_bottom:
  "history h = Some hist \<Longrightarrow> cursor h = int (length hist) \<Longrightarrow>
   history_back h = Inr (vector_back hist, h\<lparr>cursor := max 0 (int (length hist) - 1)\<rparr>)"
  by (simp add: history_back_def vector_back_def Let_def)

lemma back_in_range:
  "history h = Some hist \<Longrightarrow> 0 \<le> cursor h \<Longrightarrow> cursor h \<le> int (length hist) \<Longrightarrow>
   \<exists>c h'. history_back h = Inr (c, h') \<and> history h' = Some hist \<and>
          0 \<le> cursor h' \<and> cursor h' \<le> int (length hist)"
  by (simp add: history_back_def Let_def)

lemma forward_in_range:
  "history h = Some hist \<Longrightarrow> 0 \<le> cursor h \<Longrightarrow> cursor h \<le> int (length hist) \<Longrightarrow>
   \<exists>c h'. history_forward h = Inr (c, h') \<and> history h' = Some hist \<and>
          0 \<le> cursor h' \<and> cursor h' \<le> int (length hist)"
  by (simp add: history_forward_def Let_def)

lemma navigate_in_range:
  "history h = Some hist \<Longrightarrow> 0 \<le> cursor h \<Longrightarrow> cursor h \<le> int (length hist) \<Longrightarrow>
   \<exists>h'. navigate ns h = Inr h' \<and> history h' = Some hist \<and>
        0 \<le> cursor h' \<and> cursor h' \<le> int (length hist)"
proof (induction ns arbitrary: h)
  case Nil
  then show ?case by simp
next
  case (Cons n ns)
  show ?case
  proof (cases n)
    case Back
    from back_in_range [OF Cons.prems]
    obtain c h1 where s: "history_back h = Inr (c, h1)" "history h1 = Some hist"
      "0 \<le> cursor h1" "cursor h1 \<le> int (length hist)"
      by blast
    from Cons.IH [OF s(2) s(3) s(4)] s(1) Back show ?thesis by simp
  next
    case Forward
    from forward_in_range [OF Cons.prems]
    obtain c h1 where s: "history_forward h = Inr (c, h1)" "history h1 = Some hist"
      "0 \<le> cursor h1" "cursor h1 \<le> int (length hist)"
      by blast
    from Cons.IH [OF s(2) s(3) s(4)] s(1) Forward show ?thesis by simp
  qed
qed

lemma onHistory_loop_general:
  "onHistory_loop reply lastv hist =
     hist @ tl (remdups_adj (lastv # map (\<lambda>e. snd (snd e)) reply))"
  by (induction reply arbitrary: lastv hist) (auto simp: Let_def)

lemma tl_remdups_adj_empty_head:
  "tl (remdups_adj ([] # xs)) = remdups_adj (dropWhile (\<lambda>s. s = []) xs)"
  by (induction xs) auto

text \<open>
  What a history reply leaves behind: the input texts without the empty ones at the
  front, contiguous duplicates collapsed, and the cursor past the newest entry.
\<close>

lemma onHistory_log:
  "history (onHistory reply h) =
     Some (remdups_adj (dropWhile (\<lambda>s. s = []) (map (\<lambda>e. snd (snd e)) reply))) \<and>
   cursor (onHistory reply h) =
     int (length (remdups_adj (dropWhile (\<lambda>s. s = []) (map (\<lambda>e. snd (snd e)) reply))))"
  by (simp add: onHistory_def Let_def onHistory_loop_general tl_remdups_adj_empty_head)

lemma onHistory_example:
  "a \<noteq> [] \<Longrightarrow> a \<noteq> b \<Longrightarrow> b \<noteq> c \<Longrightarrow>
   history (onHistory [(s, 1, a), (s, 2, a), (s, 3, b), (s, 4, b), (s, 5, b), (s, 6, c)] h)
     = Some [a, b, c]"
  by (simp add: onHistory_def Let_def)

lemma no_adjacent_equal_distinct_adj: "no_adjacent_equal xs = distinct_adj xs"
  by (induction xs rule: no_adjacent_equal.induct) simp_all

lemma no_adjacent_equal_remdups_adj: "no_adjacent_equal (remdups_adj xs)"
  by (simp add: no_adjacent_equal_distinct_adj)

lemma history_call_keeps_log_duplicate_free:
  assumes "history h = Some hist" and "no_adjacent_equal hist"
  shows "\<exists>h' hist'. do_call c h = Inr h' \<and> history h' = Some hist' \<and>
           no_adjacent_equal hist'"
proof (cases c)
  case (Push item)
  with push_preserves [OF assms, of item] show ?thesis by simp
next
  case (Reply reply)
  then show ?thesis
    using onHistory_log [of reply h] by (simp add: no_adjacent_equal_remdups_adj)
next
  case (SetKernel k)
  with assms show ?thesis by (simp add: set_kernel_def)
next
  case GoBack
  with assms show ?thesis by (simp add: history_back_def Let_def)
next
  case GoForward
  with assms show ?thesis by (simp add: history_forward_def Let_def)
qed

text \<open>
  Every log the interface can produce is free of adjacent equal entries: whatever is
  called on a new history, in whatever order, nothing raises and the log has no two
  adjacent equal entries.
\<close>

lemma reachable_log_duplicate_free:
  "history h = Some hist \<Longrightarrow> no_adjacent_equal hist \<Longrightarrow>
   \<exists>h' hist'. history_calls cs h = Inr h' \<and> history h' = Some hist' \<and>
             no_adjacent_equal hist'"
proof (induction cs arbitrary: h hist)
  case Nil
  then show ?case by simp
next
  case (Cons c cs)
  from history_call_keeps_log_duplicate_free [OF Cons.prems, of c]
  obtain h1 hist1 where s: "do_call c h = Inr h1" "history h1 = Some hist1"
    "no_adjacent_equal hist1"
    by blast
  from Cons.IH [OF s(2) s(3)] s(1) show ?case by simp
qed

lemma new_history_log_duplicate_free:
  "\<exists>h' hist'. history_calls cs new_ConsoleHistory = Inr h' \<and> history h' = Some hist' \<and>
             no_adjacent_equal hist'"
  by (rule reachable_log_duplicate_free [of new_ConsoleHistory "[]"])
     (simp_all add: new_ConsoleHistory_def)

text \<open>
  What \<open>back()\<close> and \<open>forward()\<close> do on a non-disposed history whose cursor lies
  within \<open>[0, length]\<close>: \<open>back()\<close> resolves to the entry at \<open>cursor - 1\<close> and
  \<open>forward()\<close> to the entry at \<open>cursor + 1\<close>, \<open>undefined\<close> when that index is
  outside the log and never an exception; the cursor becomes \<open>max 0 (cursor - 1)\<close>,
  respectively \<open>min length (cursor + 1)\<close>; and after any sequence of such calls the
  cursor is still within \<open>[0, length]\<close>.
\<close>

lemma navigation_in_range:
  assumes "history h = Some hist" and "0 \<le> cursor h" and "cursor h \<le> int (length hist)"
  shows "history_back h = Inr (vector_at hist (cursor h - 1), h\<lparr>cursor := max 0 (cursor h - 1)\<rparr>) \<and>
         history_forward h =
           Inr (vector_at hist (cursor h + 1), h\<lparr>cursor := min (int (length hist)) (cursor h + 1)\<rparr>) \<and>
         (cursor h = 0 \<longrightarrow> history_back h = Inr (None, h)) \<and>
         (cursor h = int (length hist) \<longrightarrow> history_forward h = Inr (None, h)) \<and>
         (\<exists>h'. navigate ns h = Inr h' \<and> history h' = Some hist \<and>
               0 \<le> cursor h' \<and> cursor h' \<le> int (length hist))"
proof -
  have b: "history_back h = Inr (vector_at hist (cursor h - 1), h\<lparr>cursor := max 0 (cursor h - 1)\<rparr>)"
    using assms(1) by (simp add: history_back_def Let_def)
  have f: "history_forward h =
      Inr (vector_at hist (cursor h + 1), h\<lparr>cursor := min (int (length hist)) (cursor h + 1)\<rparr>)"
    using assms(1) by (simp add: history_forward_def Let_def)
  have b0: "cursor h = 0 \<longrightarrow> history_back h = Inr (None, h)"
  proof
    assume z: "cursor h = 0"
    have "h\<lparr>cursor := 0\<rparr> = h" using z by simp
    with b z show "history_back h = Inr (None, h)" by (simp add: vector_at_def)
  qed
  have fl: "cursor h = int (length hist) \<longrightarrow> history_forward h = Inr (None, h)"
  proof
    assume z: "cursor h = int (length hist)"
    have "h\<lparr>cursor := int (length hist)\<rparr> = h" using z by simp
    with f z show "history_forward h = Inr (None, h)" by (simp add: vector_at_def)
  qed
  from b f b0 fl navigate_in_range [OF assms] show ?thesis by blast
qed

lemma navigation_in_range_example:
  "history_back \<lparr>history = Some [''a'', ''b''], cursor = 2, kernel = None\<rparr>
     = Inr (Some ''b'', \<lparr>history = Some [''a'', ''b''], cursor = 1, kernel = None\<rparr>) \<and>
   history_forward \<lparr>history = Some [''a'', ''b''], cursor = 2, kernel = None\<rparr>
     = Inr (None, \<lparr>history = Some [''a'', ''b''], cursor = 2, kernel = None\<rparr>) \<and>
   (\<exists>h'. navigate [Back, Back, Back, Forward]
            \<lparr>history = Some [''a'', ''b''], cursor = 2, kernel = None\<rparr> = Inr h' \<and>
         0 \<le> cursor h' \<and> cursor h' \<le> 2)"
  using navigation_in_range
    [of "\<lparr>history = Some [''a'', ''b''], cursor = 2, kernel = None\<rparr>" "[''a'', ''b'']"
        "[Back, Back, Back, Forward]"]
  by (auto simp del: navigate.simps simp add: vector_at_def)

text \<open>
  The cursor is within \<open>[0, length]\<close> in every state reached from a new history by
  \<open>push\<close>, history replies, \<open>back()\<close>, \<open>forward()\<close> and the \<open>kernel\<close> setter
  with a kernel: all of them but the setter's \<open>null\<close> branch keep it there.
\<close>

lemma do_call_keeps_cursor_in_range:
  assumes "history h = Some hist" and "0 \<le> cursor h" and "cursor h \<le> int (length hist)"
    and "c \<noteq> SetKernel None"
  shows "\<exists>h' hist'. do_call c h = Inr h' \<and> history h' = Some hist' \<and>
           0 \<le> cursor h' \<and> cursor h' \<le> int (length hist')"
proof (cases c)
  case (Push item)
  with assms(1) show ?thesis
    by (auto simp: push_def split: option.splits)
next
  case (Reply reply)
  then show ?thesis by (simp add: onHistory_def Let_def)
next
  case (SetKernel k)
  with assms show ?thesis by (auto simp: set_kernel_def)
next
  case GoBack
  with assms show ?thesis by (simp add: history_back_def Let_def)
next
  case GoForward
  with assms show ?thesis by (simp add: history_forward_def Let_def)
qed

lemma cursor_in_range_without_null_kernel:
  "history h = Some hist \<Longrightarrow> 0 \<le> cursor h \<Longrightarrow> cursor h \<le> int (length hist) \<Longrightarrow>
   SetKernel None \<notin> set cs \<Longrightarrow>
   \<exists>h' hist'. history_calls cs h = Inr h' \<and> history h' = Some hist' \<and>
             0 \<le> cursor h' \<and> cursor h' \<le> int (length hist')"
proof (induction cs arbitrary: h hist)
  case Nil
  then show ?case by simp
next
  case (Cons c cs)
  from Cons.prems(4) have c: "c \<noteq> SetKernel None" and cs: "SetKernel None \<notin> set cs"
    by auto
  from do_call_keeps_cursor_in_range [OF Cons.prems(1,2,3) c]
  obtain h1 hist1 where s: "do_call c h = Inr h1" "history h1 = Some hist1"
    "0 \<le> cursor h1" "cursor h1 \<le> int (length hist1)"
    by blast
  from Cons.IH [OF s(2,3,4) cs] s(1) show ?case by simp
qed

text \<open>
  C3. The \<open>null\<close> branch of the \<open>kernel\<close> setter installs an empty log and returns
  without the cursor reset that \<open>onHistory\<close> and \<open>push\<close> perform. A kernel is set,
  its reply loads two entries (cursor 2), the kernel is set to \<open>null\<close>: the log is
  empty and the cursor is still 2, outside \<open>[0, 0]\<close>. \<open>back()\<close> then resolves to
  \<open>undefined\<close> and leaves the cursor at 1, still outside \<open>[0, 0]\<close>, where the cursor
  was to be clamped to \<open>[0, length]\<close> after every \<open>back()\<close>.
\<close>

theorem kernel_null_leaves_stale_cursor:
  "set_kernel None
      (onHistory [(0, 1, ''a''), (0, 2, ''b'')] (set_kernel (Some 0) new_ConsoleHistory))
     = \<lparr>history = Some [], cursor = 2, kernel = None\<rparr> \<and>
   history_back (set_kernel None
      (onHistory [(0, 1, ''a''), (0, 2, ''b'')] (set_kernel (Some 0) new_ConsoleHistory)))
     = Inr (None, \<lparr>history = Some [], cursor = 1, kernel = None\<rparr>)"
  by (simp add: history_back_def set_kernel_def onHistory_def new_ConsoleHistory_def
      vector_at_def Let_def)

text \<open>
  C4. From a log without adjacent equal entries (the empty log of a new object is
  one), every sequence of \<open>push\<close> calls ends in a log without adjacent equal entries;
  a push of an empty or \<open>undefined\<close> item, or of the current last entry, leaves the
  log as it is; every other push appends the item and puts the cursor at the new
  length.
\<close>

theorem push_no_adjacent_duplicates:
  assumes "history h = Some hist" and "no_adjacent_equal hist"
  shows "(\<exists>h' hist'. push_all items h = Inr h' \<and> history h' = Some hist' \<and>
                     no_adjacent_equal hist') \<and>
         (\<not> truthy item \<or> item = vector_back hist \<longrightarrow>
            push item h = Inr (h\<lparr>history := Some hist, cursor := int (length hist)\<rparr>)) \<and>
         (\<forall>s. item = Some s \<and> s \<noteq> [] \<and> vector_back hist \<noteq> Some s \<longrightarrow>
            push item h = Inr (h\<lparr>history := Some (hist @ [s]), cursor := int (length hist) + 1\<rparr>))"
proof -
  have ignored: "\<not> truthy item \<or> item = vector_back hist \<longrightarrow>
      push item h = Inr (h\<lparr>history := Some hist, cursor := int (length hist)\<rparr>)"
    using push_step [OF assms(1), of item] by auto
  have appended: "\<forall>s. item = Some s \<and> s \<noteq> [] \<and> vector_back hist \<noteq> Some s \<longrightarrow>
      push item h = Inr (h\<lparr>history := Some (hist @ [s]), cursor := int (length hist) + 1\<rparr>)"
    using push_step [OF assms(1), of item] by (auto simp: truthy_def)
  from push_all_preserves [OF assms, of items] ignored appended show ?thesis by blast
qed

theorem push_no_adjacent_duplicates_witness:
  "(\<exists>h'. push_all [Some ''a'', Some ''a'', None, Some [], Some ''b''] new_ConsoleHistory = Inr h' \<and>
         history h' = Some [''a'', ''b'']) \<and>
   no_adjacent_equal [''a'', ''b''] \<and>
   push (Some []) new_ConsoleHistory = Inr new_ConsoleHistory \<and>
   push (Some ''a'') new_ConsoleHistory = Inr \<lparr>history = Some [''a''], cursor = 1, kernel = None\<rparr>"
  using push_no_adjacent_duplicates [of new_ConsoleHistory "[]"
      "[Some ''a'', Some ''a'', None, Some [], Some ''b'']" "Some ''a''"]
  by (simp add: new_ConsoleHistory_def push_def truthy_def vector_back_def vector_at_def)

text \<open>
  C5, amended. For a non-disposed history and a non-empty string \<open>x\<close>, the first
  \<open>back()\<close> after \<open>push(x)\<close> resolves to \<open>x\<close>.
\<close>

theorem push_then_back_nonempty:
  assumes "history h = Some hist" and "x \<noteq> []"
  shows "\<exists>h' h''. push (Some x) h = Inr h' \<and> history_back h' = Inr (Some x, h'')"
proof (cases "vector_back hist = Some x")
  case True
  then have "hist \<noteq> []" and "last hist = x"
    by (auto simp: vector_back_eq split: if_splits)
  with assms True show ?thesis
    by (simp add: push_def truthy_def history_back_def Let_def vector_at_last)
next
  case False
  with assms show ?thesis
    by (simp add: push_def truthy_def history_back_def Let_def vector_at_def nth_append)
qed

theorem push_then_back_nonempty_witness:
  "''ls'' \<noteq> [] \<and>
   (\<exists>h' h''. push (Some ''ls'') \<lparr>history = Some [''cd''], cursor = 0, kernel = None\<rparr> = Inr h' \<and>
             history_back h' = Inr (Some ''ls'', h''))"
  using push_then_back_nonempty
    [of "\<lparr>history = Some [''cd''], cursor = 0, kernel = None\<rparr>" "[''cd'']" "''ls''"]
  by simp

text \<open>
  C5 as stated fails for the empty string: pushed on a new history it is ignored, and
  \<open>back()\<close> resolves to \<open>undefined\<close>.
\<close>

theorem push_empty_then_back_counterexample:
  "push (Some []) new_ConsoleHistory = Inr new_ConsoleHistory \<and>
   history_back new_ConsoleHistory = Inr (None, new_ConsoleHistory)"
  by (simp add: push_def truthy_def history_back_def new_ConsoleHistory_def vector_at_def)

text \<open>
  C6. A reply whose first input text is empty: the code stores \<open>[a]\<close>, where
  collapsing the contiguous duplicates of the input texts gives \<open>['', a]\<close>.
\<close>

theorem onHistory_drops_leading_empty_input:
  "history (onHistory [(0, 1, []), (0, 2, ''a'')] new_ConsoleHistory) = Some [''a''] \<and>
   remdups_adj (map (\<lambda>e. snd (snd e)) [(0 :: int, 1 :: int, []), (0, 2, ''a'')]) = [[], ''a'']"
  by (simp add: onHistory_def)

text \<open>
  C10. On a non-disposed history \<open>push\<close> of any item, ignored or not, puts the cursor
  at the length of the log, so that the next \<open>back()\<close> resolves to the last entry of
  the log, or to \<open>undefined\<close> when the log is empty.
\<close>

theorem push_always_resets_cursor:
  assumes "history h = Some hist"
  shows "\<exists>h' hist'. push item h = Inr h' \<and> history h' = Some hist' \<and>
           cursor h' = int (length hist') \<and>
           (\<exists>h''. history_back h' = Inr (if hist' = [] then None else Some (last hist'), h''))"
proof -
  define hist' where "hist' = (if truthy item \<and> item \<noteq> vector_back hist then hist @ [the item] else hist)"
  define h' where "h' = h\<lparr>history := Some hist', cursor := int (length hist')\<rparr>"
  have p: "push item h = Inr h'"
    using push_step [OF assms, of item] by (simp add: h'_def hist'_def)
  have "history h' = Some hist'" and "cursor h' = int (length hist')"
    by (simp_all add: h'_def)
  with back_at_bottom [of h' hist'] p show ?thesis
    by (auto simp: vector_back_eq)
qed

theorem push_always_resets_cursor_witness:
  "\<exists>h'. push (Some []) \<lparr>history = Some [''a''], cursor = 0, kernel = None\<rparr> = Inr h' \<and>
        history h' = Some [''a''] \<and> cursor h' = 1 \<and>
        (\<exists>h''. history_back h' = Inr (Some ''a'', h''))"
  using push_always_resets_cursor
    [of "\<lparr>history = Some [''a''], cursor = 0, kernel = None\<rparr>" "[''a'']" "Some []"]
  by (auto simp: push_def truthy_def)

section \<open>Properties of ConsolePanel\<close>

text \<open>
  C2, amended. For a panel that has not been disposed: a close request without a
  kernel disposes the panel at once. With a kernel, when the kernel-spec fetch and the
  dialog succeed and the shutdown, called exactly after an \<open>OK\<close> answer, succeeds,
  the chain is fulfilled, the default close handling is done and the panel is
  disposed. When the kernel-spec fetch is rejected, the chain is rejected and nothing
  has happened: no dialog, no shutdown, no close handling, no disposal. When the
  shutdown after an \<open>OK\<close> answer is rejected, the chain is rejected with the dialog
  shown and the shutdown called, and the panel is as it was: not closed, not disposed.
\<close>

theorem close_request_disposal:
  assumes "\<not> console_disposed (panel w)"
  shows "(session_kernel env = None \<longrightarrow>
            panel (snd (onCloseRequest env w)) = panel_dispose (panel w) \<and>
            disposed (panel (snd (onCloseRequest env w)))) \<and>
         (session_kernel env = Some (Fulfilled name) \<and> dialog_answer env = Fulfilled v \<and>
            (v = Some ''OK'' \<longrightarrow> shutdown_answer env = Fulfilled ()) \<longrightarrow>
              onCloseRequest env w =
                (Inr (Fulfilled ()),
                 w\<lparr>panel := panel_dispose (super_onCloseRequest (panel w)),
                    dialog_body := Some (''Shut down '' @ name @ ''?''),
                    shutdown_issued := (shutdown_issued w \<or> v = Some ''OK'')\<rparr>) \<and>
              disposed (panel (snd (onCloseRequest env w))) \<and>
              close_handled (panel (snd (onCloseRequest env w)))) \<and>
         (session_kernel env = Some Rejected \<longrightarrow> onCloseRequest env w = (Inr Rejected, w)) \<and>
         (session_kernel env = Some (Fulfilled name) \<and>
            dialog_answer env = Fulfilled (Some ''OK'') \<and> shutdown_answer env = Rejected \<longrightarrow>
              onCloseRequest env w =
                (Inr Rejected,
                 w\<lparr>dialog_body := Some (''Shut down '' @ name @ ''?''), shutdown_issued := True\<rparr>))"
proof -
  have none: "session_kernel env = None \<longrightarrow>
      panel (snd (onCloseRequest env w)) = panel_dispose (panel w) \<and>
      disposed (panel (snd (onCloseRequest env w)))"
    using assms by (simp add: onCloseRequest_def panel_dispose_def Let_def)
  have ok: "session_kernel env = Some (Fulfilled name) \<and> dialog_answer env = Fulfilled v \<and>
      (v = Some ''OK'' \<longrightarrow> shutdown_answer env = Fulfilled ()) \<longrightarrow>
        onCloseRequest env w =
          (Inr (Fulfilled ()),
           w\<lparr>panel := panel_dispose (super_onCloseRequest (panel w)),
              dialog_body := Some (''Shut down '' @ name @ ''?''),
              shutdown_issued := (shutdown_issued w \<or> v = Some ''OK'')\<rparr>) \<and>
        disposed (panel (snd (onCloseRequest env w))) \<and>
        close_handled (panel (snd (onCloseRequest env w)))"
    using assms
    by (auto simp: onCloseRequest_def promise_then_def panel_dispose_def
        super_onCloseRequest_def Let_def)
  have fetch: "session_kernel env = Some Rejected \<longrightarrow> onCloseRequest env w = (Inr Rejected, w)"
    using assms by (simp add: onCloseRequest_def promise_then_def Let_def)
  have shut: "session_kernel env = Some (Fulfilled name) \<and>
      dialog_answer env = Fulfilled (Some ''OK'') \<and> shutdown_answer env = Rejected \<longrightarrow>
        onCloseRequest env w =
          (Inr Rejected,
           w\<lparr>dialog_body := Some (''Shut down '' @ name @ ''?''), shutdown_issued := True\<rparr>)"
    using assms by (simp add: onCloseRequest_def promise_then_def Let_def)
  from none ok fetch shut show ?thesis by blast
qed

theorem close_request_disposal_witness:
  "\<not> console_disposed (panel open_panel) \<and>
   disposed (panel (snd (onCloseRequest
      \<lparr>session_kernel = None, dialog_answer = Rejected, shutdown_answer = Rejected\<rparr> open_panel))) \<and>
   onCloseRequest
      \<lparr>session_kernel = Some (Fulfilled ''Python 3''), dialog_answer = Fulfilled (Some ''OK''),
        shutdown_answer = Fulfilled ()\<rparr> open_panel
     = (Inr (Fulfilled ()),
        \<lparr>panel = \<lparr>disposed = True, console_disposed = True, close_handled = True\<rparr>,
          dialog_body = Some ''Shut down Python 3?'', shutdown_issued = True\<rparr>) \<and>
   onCloseRequest
      \<lparr>session_kernel = Some Rejected, dialog_answer = Fulfilled (Some ''OK''),
        shutdown_answer = Fulfilled ()\<rparr> open_panel
     = (Inr Rejected, open_panel) \<and>
   onCloseRequest
      \<lparr>session_kernel = Some (Fulfilled ''Python 3''), dialog_answer = Fulfilled (Some ''OK''),
        shutdown_answer = Rejected\<rparr> open_panel
     = (Inr Rejected,
        \<lparr>panel = \<lparr>disposed = False, console_disposed = False, close_handled = False\<rparr>,
          dialog_body = Some ''Shut down Python 3?'', shutdown_issued = True\<rparr>)"
proof -
  have h: "\<not> console_disposed (panel open_panel)"
    by (simp add: open_panel_def)
  note t = close_request_disposal [OF h, where name = "''Python 3''" and v = "Some ''OK''"]
  from h
    t [of "\<lparr>session_kernel = None, dialog_answer = Rejected, shutdown_answer = Rejected\<rparr>"]
    t [of "\<lparr>session_kernel = Some (Fulfilled ''Python 3''),
            dialog_answer = Fulfilled (Some ''OK''), shutdown_answer = Fulfilled ()\<rparr>"]
    t [of "\<lparr>session_kernel = Some Rejected, dialog_answer = Fulfilled (Some ''OK''),
            shutdown_answer = Fulfilled ()\<rparr>"]
    t [of "\<lparr>session_kernel = Some (Fulfilled ''Python 3''),
            dialog_answer = Fulfilled (Some ''OK''), shutdown_answer = Rejected\<rparr>"]
  show ?thesis
    by (simp add: open_panel_def panel_dispose_def super_onCloseRequest_def)
qed

text \<open>
  C2 as stated fails three times: without a kernel the handler disposes the panel and
  then raises; with a kernel whose spec fetch is rejected the chain ends rejected and
  the panel is not disposed; and on a panel that is already disposed the handler
  raises at once.
\<close>

theorem close_request_counterexample:
  "onCloseRequest
      \<lparr>session_kernel = None, dialog_answer = Fulfilled (Some ''OK''),
        shutdown_answer = Fulfilled ()\<rparr> open_panel
     = (Inl TypeError,
        \<lparr>panel = \<lparr>disposed = True, console_disposed = True, close_handled = False\<rparr>,
          dialog_body = None, shutdown_issued = False\<rparr>) \<and>
   onCloseRequest
      \<lparr>session_kernel = Some Rejected, dialog_answer = Fulfilled (Some ''OK''),
        shutdown_answer = Fulfilled ()\<rparr> open_panel
     = (Inr Rejected, open_panel) \<and>
   onCloseRequest
      \<lparr>session_kernel = None, dialog_answer = Fulfilled (Some ''OK''),
        shutdown_answer = Fulfilled ()\<rparr>
      (open_panel\<lparr>panel := panel_dispose (panel open_panel)\<rparr>)
     = (Inl TypeError, open_panel\<lparr>panel := panel_dispose (panel open_panel)\<rparr>)"
  by (simp add: onCloseRequest_def promise_then_def panel_dispose_def open_panel_def Let_def)

section \<open>Properties of the notebook widgets\<close>

lemma set_activeCellIndex_frame:
  "nb_model (set_activeCellIndex v nb) = nb_model nb \<and>
   nb_widgets (set_activeCellIndex v nb) = nb_widgets nb \<and>
   nb_store (set_activeCellIndex v nb) = nb_store nb \<and>
   nb_mode (set_activeCellIndex v nb) = nb_mode nb \<and>
   nb_isActive (set_activeCellIndex v nb) = nb_isActive nb \<and>
   nb_interactive (set_activeCellIndex v nb) = nb_interactive nb"
  by (simp add: set_activeCellIndex_def Let_def update_def emit_def)

lemma set_activeCellIndex_index:
  "nb_activeCellIndex (set_activeCellIndex v nb) =
     (case nb_model nb of
        None \<Rightarrow> - 1
      | Some m \<Rightarrow> if length (cells m) = 0 then - 1 else min (max v 0) (int (length (cells m)) - 1))"
  by (simp add: set_activeCellIndex_def Let_def update_def emit_def split: option.splits)

lemma set_activeCellIndex_cell:
  "nb_activeCell (set_activeCellIndex v nb) =
     childAt (nb_activeCellIndex (set_activeCellIndex v nb)) nb"
  by (auto simp: set_activeCellIndex_def Let_def update_def emit_def childAt_def
      split: option.splits)

lemma set_activeCellIndex_trace:
  "nb_trace (set_activeCellIndex v nb) =
      nb_trace nb @ [UpdateRequest] @
      (if childAt (nb_activeCellIndex (set_activeCellIndex v nb)) nb \<noteq> nb_activeCell nb
       then [ActiveCellChanged (childAt (nb_activeCellIndex (set_activeCellIndex v nb)) nb)] else []) @
      (if nb_activeCellIndex (set_activeCellIndex v nb) \<noteq> nb_activeCellIndex nb
       then [StateChanged_activeCellIndex (nb_activeCellIndex nb)
               (nb_activeCellIndex (set_activeCellIndex v nb))] else [])"
  by (auto simp: set_activeCellIndex_def Let_def update_def emit_def childAt_def
      split: option.splits)

lemma childAt_in_range:
  "0 \<le> i \<Longrightarrow> i < int (length (nb_widgets nb)) \<Longrightarrow> childAt i nb = Widget (nb_widgets nb ! nat i)"
  by (simp add: childAt_def vector_at_def)

lemma set_editor_cursor_frame:
  "activeCellIndex (set_editor_cursor a p nb) = activeCellIndex nb \<and>
   nb_activeCell (set_editor_cursor a p nb) = nb_activeCell nb \<and>
   nb_widgets (set_editor_cursor a p nb) = nb_widgets nb"
  by (simp add: set_editor_cursor_def activeCellIndex_def split: option.splits)

lemma set_editor_cursor_at:
  "a < length (nb_store nb) \<Longrightarrow>
   editor_cursor (nb_store (set_editor_cursor a p nb) ! a) = p"
  by (simp add: set_editor_cursor_def)

lemma edge_top:
  assumes m: "nb_model nb = Some m"
    and len: "length (nb_widgets nb) = length (cells m)"
    and lo: "0 \<le> nb_activeCellIndex nb" and hi: "nb_activeCellIndex nb < int (length (cells m))"
    and cs: "children_in_store nb"
  shows "\<exists>nb'. onEdgeRequest top_edge nb = Inr nb' \<and>
           activeCellIndex nb' = max 0 (activeCellIndex nb - 1) \<and>
           (0 < activeCellIndex nb \<longrightarrow>
              nb_activeCell nb' = Widget (nb_widgets nb ! nat (activeCellIndex nb - 1)) \<and>
              editor_cursor (nb_store nb' ! (nb_widgets nb ! nat (activeCellIndex nb - 1))) =
                LineCh (getLastLine (nb_store nb ! (nb_widgets nb ! nat (activeCellIndex nb - 1)))) 0)"
proof -
  have ne: "length (cells m) \<noteq> 0" using lo hi by auto
  have idx: "activeCellIndex nb = nb_activeCellIndex nb"
    using m ne by (simp add: activeCellIndex_def)
  let ?nb1 = "set_activeCellIndex (activeCellIndex nb - 1) nb"
  have i1: "nb_activeCellIndex ?nb1 = max 0 (nb_activeCellIndex nb - 1)"
    using m ne lo hi by (simp add: set_activeCellIndex_index idx)
  have g1: "activeCellIndex ?nb1 = max 0 (nb_activeCellIndex nb - 1)"
    using m ne i1 by (simp add: activeCellIndex_def set_activeCellIndex_frame)
  show ?thesis
  proof (cases "0 < nb_activeCellIndex nb")
    case False
    then have "\<not> activeCellIndex ?nb1 < activeCellIndex nb" using g1 idx lo by simp
    then have "onEdgeRequest top_edge nb = Inr ?nb1"
      by (simp add: onEdgeRequest_def Let_def)
    with g1 idx False show ?thesis by simp
  next
    case True
    let ?a = "nb_widgets nb ! nat (nb_activeCellIndex nb - 1)"
    have c1: "nb_activeCell ?nb1 = Widget ?a"
      using True hi len i1 by (simp add: set_activeCellIndex_cell childAt_in_range)
    have "?a \<in> set (nb_widgets nb)" using True hi len by simp
    then have a: "?a < length (nb_store nb)" using cs by (simp add: children_in_store_def)
    have lt: "activeCellIndex ?nb1 < activeCellIndex nb" using g1 idx True by simp
    let ?nb2 = "set_editor_cursor ?a (LineCh (getLastLine (nb_store ?nb1 ! ?a)) 0) ?nb1"
    have r: "onEdgeRequest top_edge nb = Inr ?nb2"
      using lt c1 by (simp add: onEdgeRequest_def Let_def)
    have f2: "activeCellIndex ?nb2 = activeCellIndex ?nb1" "nb_activeCell ?nb2 = nb_activeCell ?nb1"
      by (simp_all add: set_editor_cursor_frame)
    have cur: "editor_cursor (nb_store ?nb2 ! ?a) = LineCh (getLastLine (nb_store nb ! ?a)) 0"
      using a set_editor_cursor_at [of ?a ?nb1] by (simp add: set_activeCellIndex_frame)
    from r f2 g1 c1 cur idx show ?thesis by simp
  qed
qed

lemma edge_bottom:
  assumes m: "nb_model nb = Some m"
    and len: "length (nb_widgets nb) = length (cells m)"
    and lo: "0 \<le> nb_activeCellIndex nb" and hi: "nb_activeCellIndex nb < int (length (cells m))"
    and cs: "children_in_store nb"
  shows "\<exists>nb'. onEdgeRequest bottom_edge nb = Inr nb' \<and>
           activeCellIndex nb' = min (int (length (cells m)) - 1) (activeCellIndex nb + 1) \<and>
           (activeCellIndex nb < int (length (cells m)) - 1 \<longrightarrow>
              nb_activeCell nb' = Widget (nb_widgets nb ! nat (activeCellIndex nb + 1)) \<and>
              editor_cursor (nb_store nb' ! (nb_widgets nb ! nat (activeCellIndex nb + 1))) =
                Position 0)"
proof -
  have ne: "length (cells m) \<noteq> 0" using lo hi by auto
  have idx: "activeCellIndex nb = nb_activeCellIndex nb"
    using m ne by (simp add: activeCellIndex_def)
  let ?nb1 = "set_activeCellIndex (activeCellIndex nb + 1) nb"
  have i1: "nb_activeCellIndex ?nb1 = min (int (length (cells m)) - 1) (nb_activeCellIndex nb + 1)"
    using m ne lo hi by (simp add: set_activeCellIndex_index idx)
  have g1: "activeCellIndex ?nb1 = min (int (length (cells m)) - 1) (nb_activeCellIndex nb + 1)"
    using m ne i1 by (simp add: activeCellIndex_def set_activeCellIndex_frame)
  show ?thesis
  proof (cases "nb_activeCellIndex nb < int (length (cells m)) - 1")
    case False
    then have "\<not> activeCellIndex ?nb1 > activeCellIndex nb" using g1 idx hi by simp
    then have "onEdgeRequest bottom_edge nb = Inr ?nb1"
      by (simp add: onEdgeRequest_def Let_def)
    with g1 idx False show ?thesis by simp
  next
    case True
    let ?a = "nb_widgets nb ! nat (nb_activeCellIndex nb + 1)"
    have c1: "nb_activeCell ?nb1 = Widget ?a"
      using True lo len i1 by (simp add: set_activeCellIndex_cell childAt_in_range)
    have "?a \<in> set (nb_widgets nb)" using True lo len by simp
    then have a: "?a < length (nb_store nb)" using cs by (simp add: children_in_store_def)
    have gt: "activeCellIndex ?nb1 > activeCellIndex nb" using g1 idx True by simp
    let ?nb2 = "set_editor_cursor ?a (Position 0) ?nb1"
    have r: "onEdgeRequest bottom_edge nb = Inr ?nb2"
      using gt c1 by (simp add: onEdgeRequest_def Let_def)
    have f2: "activeCellIndex ?nb2 = activeCellIndex ?nb1" "nb_activeCell ?nb2 = nb_activeCell ?nb1"
      by (simp_all add: set_editor_cursor_frame)
    have cur: "editor_cursor (nb_store ?nb2 ! ?a) = Position 0"
      using a set_editor_cursor_at [of ?a ?nb1] by (simp add: set_activeCellIndex_frame)
    from r f2 g1 c1 cur idx show ?thesis by simp
  qed
qed

lemma deselect_frame:
  "nb_widgets (deselect a nb) = nb_widgets nb \<and>
   length (nb_store (deselect a nb)) = length (nb_store nb) \<and>
   nb_mode (deselect a nb) = nb_mode nb \<and>
   nb_isActive (deselect a nb) = nb_isActive nb \<and>
   nb_activeCell (deselect a nb) = nb_activeCell nb"
  by (simp add: deselect_def update_def emit_def)

lemma deselect_class:
  "widget_class (nb_store (deselect a nb) ! x) = widget_class (nb_store nb ! x)"
  by (cases "a < length (nb_store nb)"; cases "x = a")
     (simp_all add: deselect_def update_def emit_def list_update_beyond)

lemma deselect_keeps_unselected:
  "\<not> selected (nb_store nb ! x) \<Longrightarrow> \<not> selected (nb_store (deselect a nb) ! x)"
  by (cases "a < length (nb_store nb)"; cases "x = a")
     (simp_all add: deselect_def update_def emit_def list_update_beyond)

lemma deselect_clears:
  "a < length (nb_store nb) \<Longrightarrow> \<not> selected (nb_store (deselect a nb) ! a)"
  by (simp add: deselect_def update_def emit_def)

lemma deselect_trace:
  "\<exists>ext. nb_trace (deselect a nb) = nb_trace nb @ ext \<and> ActivateRequest \<notin> set ext"
  by (simp add: deselect_def update_def emit_def)

lemma deselect_each_frame:
  "nb_widgets (deselect_each as nb) = nb_widgets nb \<and>
   length (nb_store (deselect_each as nb)) = length (nb_store nb) \<and>
   nb_mode (deselect_each as nb) = nb_mode nb \<and>
   nb_isActive (deselect_each as nb) = nb_isActive nb \<and>
   nb_activeCell (deselect_each as nb) = nb_activeCell nb"
  by (induction as arbitrary: nb) (simp_all add: deselect_frame)

lemma deselect_each_class:
  "widget_class (nb_store (deselect_each as nb) ! x) = widget_class (nb_store nb ! x)"
  by (induction as arbitrary: nb) (simp_all add: deselect_class)

lemma deselect_each_keeps_unselected:
  "\<not> selected (nb_store nb ! x) \<Longrightarrow> \<not> selected (nb_store (deselect_each as nb) ! x)"
  by (induction as arbitrary: nb) (simp_all add: deselect_keeps_unselected)

lemma deselect_each_clears:
  "x \<in> set as \<Longrightarrow> x < length (nb_store nb) \<Longrightarrow>
   \<not> selected (nb_store (deselect_each as nb) ! x)"
proof (induction as arbitrary: nb)
  case Nil
  then show ?case by simp
next
  case (Cons a as)
  show ?case
  proof (cases "x = a")
    case True
    with Cons.prems have "\<not> selected (nb_store (deselect a nb) ! x)"
      by (simp add: deselect_clears)
    then show ?thesis by (simp add: deselect_each_keeps_unselected)
  next
    case False
    with Cons.prems have "x \<in> set as" by simp
    moreover have "x < length (nb_store (deselect a nb))"
      using Cons.prems by (simp add: deselect_frame)
    ultimately show ?thesis using Cons.IH by simp
  qed
qed

lemma deselect_each_trace:
  "\<exists>ext. nb_trace (deselect_each as nb) = nb_trace nb @ ext \<and> ActivateRequest \<notin> set ext"
proof (induction as arbitrary: nb)
  case Nil
  then show ?case by simp
next
  case (Cons a as)
  obtain e1 where e1: "nb_trace (deselect a nb) = nb_trace nb @ e1" "ActivateRequest \<notin> set e1"
    using deselect_trace by blast
  obtain e2 where e2: "nb_trace (deselect_each as (deselect a nb)) = nb_trace (deselect a nb) @ e2"
      "ActivateRequest \<notin> set e2"
    using Cons.IH by blast
  from e1 e2 have "nb_trace (deselect_each (a # as) nb) = nb_trace nb @ (e1 @ e2)"
      and "ActivateRequest \<notin> set (e1 @ e2)"
    by simp_all
  then show ?case by blast
qed

lemma insertWidget_fresh:
  "a \<notin> set ws \<Longrightarrow>
   insertWidget index a ws =
     take (nat (max 0 (min index (int (length ws))))) ws @ [a] @
     drop (nat (max 0 (min index (int (length ws))))) ws"
  by (simp add: insertWidget_def indexOf_def Let_def)

lemma remove1_nth:
  "distinct ws \<Longrightarrow> i < length ws \<Longrightarrow> remove1 (ws ! i) ws = take i ws @ drop (Suc i) ws"
proof (induction ws arbitrary: i)
  case Nil
  then show ?case by simp
next
  case (Cons w ws)
  show ?case
  proof (cases i)
    case 0
    then show ?thesis by simp
  next
    case (Suc k)
    with Cons.prems have "ws ! k \<noteq> w" by auto
    with Suc Cons show ?thesis by simp
  qed
qed

lemma updateCell_frame:
  "nb_widgets (updateCell i nb) = nb_widgets nb \<and>
   nb_model (updateCell i nb) = nb_model nb \<and>
   nb_interactive (updateCell i nb) = nb_interactive nb \<and>
   length (nb_store (updateCell i nb)) = length (nb_store nb)"
  by (simp add: updateCell_def split: option.splits)

lemma updateCell_widget_model:
  "widget_model (nb_store (updateCell i nb) ! x) = widget_model (nb_store nb ! x)"
proof (cases "vector_at (nb_widgets nb) i")
  case None
  then show ?thesis by (simp add: updateCell_def)
next
  case (Some a)
  then show ?thesis
    by (cases "a < length (nb_store nb)"; cases "x = a")
       (simp_all add: updateCell_def list_update_beyond)
qed

lemma onCellInserted_frame:
  "nb_model (onCellInserted i a nb) = nb_model nb \<and>
   nb_widgets (onCellInserted i a nb) = nb_widgets nb \<and>
   nb_store (onCellInserted i a nb) = nb_store nb"
  by (simp add: onCellInserted_def set_activeCellIndex_frame)

lemma onCellRemoved_frame:
  "nb_model (onCellRemoved a nb) = nb_model nb \<and>
   nb_widgets (onCellRemoved a nb) = nb_widgets nb \<and>
   nb_store (onCellRemoved a nb) = nb_store nb"
  by (simp add: onCellRemoved_def Let_def emit_def set_activeCellIndex_frame)

lemma insertCell_shown:
  assumes "tidy nb"
  shows "shown (insertCell index cell nb) =
           take (nat index) (shown nb) @ [cell] @ drop (nat index) (shown nb) \<and>
         tidy (insertCell index cell nb) \<and>
         nb_model (insertCell index cell nb) = nb_model nb"
proof -
  let ?ws = "nb_widgets nb"
  let ?a = "length (nb_store nb)"
  let ?j = "nat (max 0 (min index (int (length ?ws))))"
  let ?nb2 = "nb\<lparr>nb_store := nb_store nb @ [createCell cell],
                 nb_widgets := insertWidget index ?a ?ws\<rparr>"
  let ?nb3 = "updateCell index ?nb2"
  from assms have d: "distinct ?ws" and c: "\<forall>x\<in>set ?ws. x < ?a"
    by (simp_all add: tidy_def children_in_store_def)
  then have fresh: "?a \<notin> set ?ws" by auto
  have r: "insertCell index cell nb = onCellInserted index ?a ?nb3"
    by (simp add: insertCell_def Let_def)
  have w2: "nb_widgets ?nb2 = take ?j ?ws @ [?a] @ drop ?j ?ws"
    using insertWidget_fresh [OF fresh] by simp
  have w: "nb_widgets (insertCell index cell nb) = take ?j ?ws @ [?a] @ drop ?j ?ws"
    unfolding r using w2 by (simp add: onCellInserted_frame updateCell_frame)
  have st: "nb_store (insertCell index cell nb) = nb_store ?nb3"
    unfolding r by (simp add: onCellInserted_frame)
  have len: "length (nb_store ?nb3) = Suc ?a"
    by (simp add: updateCell_frame)
  have wm: "\<And>x. widget_model (nb_store ?nb3 ! x) = widget_model ((nb_store nb @ [createCell cell]) ! x)"
    by (simp add: updateCell_widget_model)
  have old: "\<And>x. x \<in> set ?ws \<Longrightarrow> widget_model (nb_store ?nb3 ! x) = widget_model (nb_store nb ! x)"
    using c by (simp add: wm nth_append)
  have new: "widget_model (nb_store ?nb3 ! ?a) = cell"
    unfolding wm by (simp add: createCell_def)
  have tk: "take ?j (shown nb) = take (nat index) (shown nb)"
       "drop ?j (shown nb) = drop (nat index) (shown nb)"
    by (simp_all add: shown_def min_def max_def)
  have mall: "map (\<lambda>x. widget_model (nb_store ?nb3 ! x)) ?ws = shown nb"
    unfolding shown_def by (rule map_cong) (simp_all add: old)
  have m1: "map (\<lambda>x. widget_model (nb_store ?nb3 ! x)) (take ?j ?ws) = take ?j (shown nb)"
    by (simp add: mall [symmetric] take_map)
  have m2: "map (\<lambda>x. widget_model (nb_store ?nb3 ! x)) (drop ?j ?ws) = drop ?j (shown nb)"
    by (simp add: mall [symmetric] drop_map)
  have s: "shown (insertCell index cell nb) =
      take (nat index) (shown nb) @ [cell] @ drop (nat index) (shown nb)"
    unfolding shown_def [of "insertCell index cell nb"] w st
    using m1 m2 new tk by simp
  have "distinct (take ?j ?ws @ [?a] @ drop ?j ?ws)"
    using d fresh by (auto simp: distinct_take distinct_drop dest: in_set_takeD in_set_dropD
        simp: set_take_disj_set_drop_if_distinct)
  moreover have "\<forall>x\<in>set (take ?j ?ws @ [?a] @ drop ?j ?ws). x < Suc ?a"
    using c by (auto dest: in_set_takeD in_set_dropD less_SucI)
  ultimately have t: "tidy (insertCell index cell nb)"
    unfolding tidy_def children_in_store_def w st len by blast
  have "nb_model (insertCell index cell nb) = nb_model nb"
    unfolding r by (simp add: onCellInserted_frame updateCell_frame)
  with s t show ?thesis by blast
qed


lemma removeCell_shown:
  assumes t: "tidy nb" and lo: "0 \<le> index" and hi: "index < int (length (nb_widgets nb))"
  shows "\<exists>nb'. removeCell index nb = Inr nb' \<and>
           shown nb' = take (nat index) (shown nb) @ drop (Suc (nat index)) (shown nb) \<and>
           tidy nb' \<and> nb_model nb' = nb_model nb"
proof -
  let ?ws = "nb_widgets nb"
  let ?i = "nat index"
  let ?a = "?ws ! ?i"
  let ?ws' = "take ?i ?ws @ drop (Suc ?i) ?ws"
  let ?nb2 = "onCellRemoved ?a (nb\<lparr>nb_widgets := removeWidget ?a ?ws\<rparr>)"
  let ?nb3 = "?nb2\<lparr>nb_store := (nb_store ?nb2)[?a := (nb_store ?nb2 ! ?a)\<lparr>widget_disposed := True\<rparr>]\<rparr>"
  from t have d: "distinct ?ws" and c: "\<forall>x\<in>set ?ws. x < length (nb_store nb)"
    by (simp_all add: tidy_def children_in_store_def)
  have i: "?i < length ?ws" using lo hi by simp
  have at: "vector_at ?ws index = Some ?a"
    using lo hi by (simp add: vector_at_def)
  have r: "removeCell index nb = Inr ?nb3"
    by (simp add: removeCell_def at Let_def)
  have w: "nb_widgets ?nb3 = ?ws'"
    using remove1_nth [OF d i] by (simp add: onCellRemoved_frame removeWidget_def)
  have st2: "nb_store ?nb2 = nb_store nb"
    by (simp add: onCellRemoved_frame)
  have wm: "\<And>x. widget_model (nb_store ?nb3 ! x) = widget_model (nb_store nb ! x)"
  proof -
    fix x
    show "widget_model (nb_store ?nb3 ! x) = widget_model (nb_store nb ! x)"
      by (cases "?a < length (nb_store nb)"; cases "x = ?a")
         (simp_all add: st2 list_update_beyond)
  qed
  have s: "shown ?nb3 = take ?i (shown nb) @ drop (Suc ?i) (shown nb)"
  proof -
    have "shown ?nb3 = map (\<lambda>x. widget_model (nb_store ?nb3 ! x)) ?ws'"
      by (simp only: shown_def w)
    also have "\<dots> = map (\<lambda>x. widget_model (nb_store nb ! x)) ?ws'"
      by (simp only: wm)
    also have "\<dots> = take ?i (shown nb) @ drop (Suc ?i) (shown nb)"
      by (simp add: shown_def take_map drop_map)
    finally show ?thesis .
  qed
  have "distinct ?ws'"
    using distinct_remove1 [OF d, of ?a] remove1_nth [OF d i] by simp
  moreover have "\<forall>x\<in>set ?ws'. x < length (nb_store ?nb3)"
    using c by (auto simp: st2 dest: in_set_takeD in_set_dropD)
  ultimately have t': "tidy ?nb3"
    unfolding tidy_def children_in_store_def w by blast
  have "nb_model ?nb3 = nb_model nb"
    by (simp add: onCellRemoved_frame)
  with r s t' show ?thesis by blast
qed


lemma length_shown: "length (shown nb) = length (nb_widgets nb)"
  by (simp add: shown_def)

lemma removeCell_times_shown:
  "tidy nb \<Longrightarrow> 0 \<le> index \<Longrightarrow> nat index + n \<le> length (nb_widgets nb) \<Longrightarrow>
   \<exists>nb'. removeCell_times n index nb = Inr nb' \<and>
         shown nb' = take (nat index) (shown nb) @ drop (nat index + n) (shown nb) \<and>
         tidy nb' \<and> nb_model nb' = nb_model nb"
proof (induction n arbitrary: nb)
  case 0
  then show ?case by simp
next
  case (Suc n)
  let ?i = "nat index"
  from Suc.prems have hi: "index < int (length (nb_widgets nb))" by simp
  from removeCell_shown [OF Suc.prems(1) Suc.prems(2) hi]
  obtain nb1 where s1: "removeCell index nb = Inr nb1"
    "shown nb1 = take ?i (shown nb) @ drop (Suc ?i) (shown nb)"
    "tidy nb1" "nb_model nb1 = nb_model nb"
    by blast
  have l1: "length (nb_widgets nb1) = length (nb_widgets nb) - 1"
    using s1(2) Suc.prems length_shown [of nb1] length_shown [of nb] by simp
  then have "?i + n \<le> length (nb_widgets nb1)" using Suc.prems by simp
  from Suc.IH [OF s1(3) Suc.prems(2) this]
  obtain nb' where s2: "removeCell_times n index nb1 = Inr nb'"
    "shown nb' = take ?i (shown nb1) @ drop (?i + n) (shown nb1)"
    "tidy nb'" "nb_model nb' = nb_model nb1"
    by blast
  have il: "?i \<le> length (shown nb)" using Suc.prems by (simp add: length_shown)
  have "take ?i (shown nb1) = take ?i (shown nb)"
    unfolding s1(2) using il by simp
  moreover have "drop (?i + n) (shown nb1) = drop (?i + Suc n) (shown nb)"
    unfolding s1(2) using il by (simp add: min_absorb2 add.commute)
  ultimately have "shown nb' = take ?i (shown nb) @ drop (?i + Suc n) (shown nb)"
    using s2(2) by simp
  with s1 s2 show ?case by simp
qed

lemma insertCell_each_shown:
  "tidy nb \<Longrightarrow> nat index \<le> length (nb_widgets nb) \<Longrightarrow>
   shown (insertCell_each index cs nb) =
     take (nat index) (shown nb) @ rev cs @ drop (nat index) (shown nb) \<and>
   tidy (insertCell_each index cs nb) \<and>
   nb_model (insertCell_each index cs nb) = nb_model nb"
proof (induction cs arbitrary: nb)
  case Nil
  then show ?case by simp
next
  case (Cons c cs)
  let ?i = "nat index"
  let ?nb1 = "insertCell index c nb"
  from insertCell_shown [OF Cons.prems(1), of index c]
  have s1: "shown ?nb1 = take ?i (shown nb) @ [c] @ drop ?i (shown nb)"
    "tidy ?nb1" "nb_model ?nb1 = nb_model nb"
    by simp_all
  have il: "?i \<le> length (shown nb)" using Cons.prems by (simp add: length_shown)
  have "length (nb_widgets ?nb1) = Suc (length (nb_widgets nb))"
    using s1(1) length_shown [of ?nb1] length_shown [of nb] by simp
  then have "?i \<le> length (nb_widgets ?nb1)" using Cons.prems by simp
  from Cons.IH [OF s1(2) this]
  have s2: "shown (insertCell_each index cs ?nb1) =
      take ?i (shown ?nb1) @ rev cs @ drop ?i (shown ?nb1)"
    "tidy (insertCell_each index cs ?nb1)"
    "nb_model (insertCell_each index cs ?nb1) = nb_model ?nb1"
    by simp_all
  have "take ?i (shown ?nb1) = take ?i (shown nb)"
    unfolding s1(1) using il by simp
  moreover have "drop ?i (shown ?nb1) = c # drop ?i (shown nb)"
    unfolding s1(1) using il by (simp add: min_absorb2)
  ultimately show ?case using s2 s1(3) by simp
qed

lemma list_move_same: "i < length xs \<Longrightarrow> list_move i i xs = xs"
  by (simp add: list_move_def Let_def min_absorb2 id_take_nth_drop [symmetric])

lemma split_two:
  assumes "Suc i < length xs"
  obtains p x y q where "xs = p @ x # y # q" and "length p = i"
proof -
  from assms have "xs = take i xs @ xs ! i # xs ! Suc i # drop (Suc (Suc i)) xs"
    by (metis Cons_nth_drop_Suc Suc_lessD id_take_nth_drop)
  moreover have "length (take i xs) = i" using assms by simp
  ultimately show thesis using that by blast
qed

lemma list_move_adjacent:
  assumes "Suc i < length xs"
  shows "list_move i (Suc i) xs = list_move (Suc i) i xs"
proof -
  from assms obtain p x y q where xs: "xs = p @ x # y # q" and p: "length p = i"
    by (rule split_two)
  show ?thesis
    unfolding xs using p by (simp add: list_move_def Let_def nth_append)
qed

lemma list_move_map:
  "i < length xs \<Longrightarrow> map f (list_move i j xs) = list_move i j (map f xs)"
  by (simp add: list_move_def Let_def take_map drop_map)

lemma list_move_set_distinct:
  assumes "distinct xs" and "i < length xs"
  shows "distinct (list_move i j xs) \<and> set (list_move i j xs) = set xs"
proof -
  define rest where "rest = take i xs @ drop (Suc i) xs"
  have r: "rest = remove1 (xs ! i) xs"
    unfolding rest_def using remove1_nth [OF assms] by simp
  have d: "distinct rest" unfolding r using assms(1) by simp
  have s: "set rest = set xs - {xs ! i}" unfolding r using assms(1) by simp
  have u: "set (take j rest) \<union> set (drop j rest) = set rest"
    by (metis append_take_drop_id set_append)
  have "distinct (take j rest @ drop j rest)" using d by simp
  then have d2: "distinct (take j rest)" "distinct (drop j rest)"
    "set (take j rest) \<inter> set (drop j rest) = {}"
    by (simp_all only: distinct_append)
  have n: "xs ! i \<notin> set (take j rest)" "xs ! i \<notin> set (drop j rest)"
    using s u by blast+
  have m: "list_move i j xs = take j rest @ [xs ! i] @ drop j rest"
    by (simp only: list_move_def Let_def rest_def)
  have "distinct (take j rest @ [xs ! i] @ drop j rest)"
    using d2 n by auto
  moreover have "set (take j rest @ [xs ! i] @ drop j rest) = insert (xs ! i) (set rest)"
    using u by (simp only: set_append set_simps) blast
  moreover have "insert (xs ! i) (set rest) = set xs"
    unfolding s using assms(2) nth_mem by blast
  ultimately show ?thesis unfolding m by simp
qed

lemma takeWhile_neq_nth:
  "distinct ws \<Longrightarrow> n < length ws \<Longrightarrow> takeWhile (\<lambda>x. x \<noteq> ws ! n) ws = take n ws"
proof (induction ws arbitrary: n)
  case Nil
  then show ?case by simp
next
  case (Cons w ws)
  show ?case
  proof (cases n)
    case 0
    then show ?thesis by simp
  next
    case (Suc k)
    with Cons.prems have "ws ! k \<noteq> w" by auto
    with Suc Cons show ?thesis by simp
  qed
qed

lemma indexOf_nth: "distinct ws \<Longrightarrow> n < length ws \<Longrightarrow> indexOf ws (ws ! n) = int n"
  by (simp add: indexOf_def takeWhile_neq_nth)

lemma insertWidget_present:
  assumes "distinct ws" and "n < length ws" and "j < length ws"
  shows "insertWidget (int j) (ws ! n) ws = list_move n j ws"
proof (cases "n = j")
  case True
  with assms show ?thesis
    by (simp add: insertWidget_def indexOf_nth Let_def list_move_same)
next
  case False
  with assms show ?thesis
    by (simp add: insertWidget_def indexOf_nth Let_def list_move_def)
qed

lemma onCellMoved_frame:
  "nb_model (onCellMoved i j nb) = nb_model nb \<and>
   nb_widgets (onCellMoved i j nb) = nb_widgets nb \<and>
   nb_store (onCellMoved i j nb) = nb_store nb"
  by (simp add: onCellMoved_def set_activeCellIndex_frame)

lemma apply_change_move: "apply_change (ListMove oldIndex newIndex) cs = list_move (nat oldIndex) (nat newIndex) cs"
  by (simp add: list_move_def Let_def)

lemma list_move_near:
  assumes "i < length xs" and "j < length xs" and "i \<le> Suc j" and "j \<le> Suc i"
  shows "list_move i j xs = list_move j i xs"
proof -
  consider "i = j" | "j = Suc i" | "i = Suc j" using assms by linarith
  then show ?thesis
  proof cases
    case 1
    then show ?thesis by simp
  next
    case 2
    with assms list_move_adjacent [of i xs] show ?thesis by simp
  next
    case 3
    with assms list_move_adjacent [of j xs] show ?thesis by simp
  qed
qed

lemma moveCell_near:
  assumes t: "tidy nb"
    and o: "0 \<le> oldIndex" "oldIndex < int (length (nb_widgets nb))"
    and n: "0 \<le> newIndex" "newIndex < int (length (nb_widgets nb))"
    and near: "\<not> 1 < \<bar>oldIndex - newIndex\<bar>"
  shows "\<exists>nb'. moveCell newIndex oldIndex nb = Inr nb' \<and>
           shown nb' = list_move (nat oldIndex) (nat newIndex) (shown nb) \<and>
           tidy nb' \<and> nb_model nb' = nb_model nb"
proof -
  let ?ws = "nb_widgets nb"
  let ?a = "?ws ! nat newIndex"
  let ?nb1 = "nb\<lparr>nb_widgets := insertWidget oldIndex ?a ?ws\<rparr>"
  let ?nb' = "onCellMoved newIndex oldIndex ?nb1"
  from t have d: "distinct ?ws" and c: "\<forall>x\<in>set ?ws. x < length (nb_store nb)"
    by (simp_all add: tidy_def children_in_store_def)
  have ln: "nat newIndex < length ?ws" and lo: "nat oldIndex < length ?ws"
    using o n by simp_all
  have at: "vector_at ?ws newIndex = Some ?a"
    using n by (simp add: vector_at_def)
  have r: "moveCell newIndex oldIndex nb = Inr ?nb'"
    by (simp add: moveCell_def at)
  have "insertWidget (int (nat oldIndex)) ?a ?ws = list_move (nat newIndex) (nat oldIndex) ?ws"
    by (rule insertWidget_present [OF d ln lo])
  then have iw: "insertWidget oldIndex ?a ?ws = list_move (nat newIndex) (nat oldIndex) ?ws"
    using o by simp
  have w: "nb_widgets ?nb' = list_move (nat newIndex) (nat oldIndex) ?ws"
    by (simp add: onCellMoved_frame iw)
  have st: "nb_store ?nb' = nb_store nb"
    by (simp add: onCellMoved_frame)
  have "shown ?nb' = list_move (nat newIndex) (nat oldIndex) (shown nb)"
    unfolding shown_def w st using ln by (simp add: list_move_map)
  also have "\<dots> = list_move (nat oldIndex) (nat newIndex) (shown nb)"
    using near o n by (intro list_move_near) (simp_all add: length_shown)
  finally have s: "shown ?nb' = list_move (nat oldIndex) (nat newIndex) (shown nb)" .
  from list_move_set_distinct [OF d ln, of "nat oldIndex"] c
  have t': "tidy ?nb'"
    unfolding tidy_def children_in_store_def w st by simp
  have "nb_model ?nb' = nb_model nb"
    by (simp add: onCellMoved_frame)
  with r s t' show ?thesis by blast
qed


lemma deliver_keeps_mirroring:
  assumes m: "nb_model nb = Some m" and sh: "shown nb = cells m" and t: "tidy nb"
    and v: "valid_change args (cells m)" and nf: "\<not> moves_far args"
  shows "\<exists>nb'. deliver args nb = Inr nb' \<and>
           nb_model nb' = Some (m\<lparr>cells := apply_change args (cells m)\<rparr>) \<and>
           shown nb' = apply_change args (cells m) \<and> tidy nb'"
proof -
  define nbm where "nbm = nb\<lparr>nb_model := Some (m\<lparr>cells := apply_change args (cells m)\<rparr>)\<rparr>"
  have d: "deliver args nb = onCellsChanged args nbm"
    by (simp add: deliver_def nbm_def m)
  have sm: "shown nbm = cells m" using sh by (simp add: shown_def nbm_def)
  have tm: "tidy nbm" using t by (simp add: tidy_def children_in_store_def nbm_def)
  have mm: "nb_model nbm = Some (m\<lparr>cells := apply_change args (cells m)\<rparr>)"
    by (simp add: nbm_def)
  have len: "length (nb_widgets nbm) = length (cells m)"
    using sm length_shown [of nbm] by simp
  show ?thesis
  proof (cases args)
    case (ListAdd i c)
    with insertCell_shown [OF tm, of i c] d sm mm show ?thesis by simp
  next
    case (ListMove i j)
    with v nf have "0 \<le> i" "i < int (length (nb_widgets nbm))"
      "0 \<le> j" "j < int (length (nb_widgets nbm))" "\<not> 1 < \<bar>i - j\<bar>"
      by (simp_all add: len)
    from moveCell_near [OF tm this]
    obtain nb1 where s1: "moveCell j i nbm = Inr nb1"
      "shown nb1 = list_move (nat i) (nat j) (shown nbm)" "tidy nb1" "nb_model nb1 = nb_model nbm"
      by blast
    have ac: "apply_change args (cells m) = list_move (nat i) (nat j) (cells m)"
      unfolding ListMove by (rule apply_change_move)
    have "deliver args nb = Inr nb1" using d s1(1) ListMove by simp
    moreover have "shown nb1 = apply_change args (cells m)" using s1(2) sm ac by simp
    ultimately show ?thesis using s1(3,4) mm by simp
  next
    case (ListRemove i)
    with v have "0 \<le> i" "i < int (length (nb_widgets nbm))"
      by (simp_all add: len)
    from removeCell_shown [OF tm this] ListRemove d sm mm show ?thesis
      by auto
  next
    case (ListReplace i olds j news)
    with v have i: "0 \<le> i" "nat i + length olds \<le> length (nb_widgets nbm)" and j: "j = i"
      by (simp_all add: len)
    from removeCell_times_shown [OF tm i]
    obtain nb1 where s1: "removeCell_times (length olds) i nbm = Inr nb1"
      "shown nb1 = take (nat i) (shown nbm) @ drop (nat i + length olds) (shown nbm)"
      "tidy nb1" "nb_model nb1 = nb_model nbm"
      by blast
    have il: "nat i \<le> length (shown nbm)" using i(2) by (simp add: length_shown)
    have "length (nb_widgets nb1) = length (shown nb1)" by (simp add: length_shown)
    then have "nat i \<le> length (nb_widgets nb1)" unfolding s1(2) using il by simp
    from insertCell_each_shown [OF s1(3) this, of "rev news"]
    have s2: "shown (insertCell_each i (rev news) nb1) =
        take (nat i) (shown nb1) @ news @ drop (nat i) (shown nb1)"
      "tidy (insertCell_each i (rev news) nb1)"
      "nb_model (insertCell_each i (rev news) nb1) = nb_model nb1"
      by simp_all
    have "take (nat i) (shown nb1) = take (nat i) (shown nbm)"
      unfolding s1(2) using il by simp
    moreover have "drop (nat i) (shown nb1) = drop (nat i + length olds) (shown nbm)"
      unfolding s1(2) using il by (simp add: min_absorb2)
    ultimately have "shown (insertCell_each i (rev news) nb1) =
        apply_change (ListReplace i olds j news) (cells m)"
      using s2(1) sm by simp
    with s1 s2 ListReplace d mm j show ?thesis by simp
  next
    case (ListSet i c)
    with v have i: "0 \<le> i" "i < int (length (nb_widgets nbm))"
      by (simp_all add: len)
    from removeCell_shown [OF tm i]
    obtain nb1 where s1: "removeCell i nbm = Inr nb1"
      "shown nb1 = take (nat i) (shown nbm) @ drop (Suc (nat i)) (shown nbm)"
      "tidy nb1" "nb_model nb1 = nb_model nbm"
      by blast
    from insertCell_shown [OF s1(3), of i c]
    have s2: "shown (insertCell i c nb1) = take (nat i) (shown nb1) @ [c] @ drop (nat i) (shown nb1)"
      "tidy (insertCell i c nb1)" "nb_model (insertCell i c nb1) = nb_model nb1"
      by simp_all
    have il: "nat i < length (shown nbm)" using i by (simp add: length_shown)
    have "take (nat i) (shown nb1) = take (nat i) (shown nbm)"
      unfolding s1(2) using il by simp
    moreover have "drop (nat i) (shown nb1) = drop (Suc (nat i)) (shown nbm)"
      unfolding s1(2) using il by (simp add: min_absorb2)
    ultimately have "shown (insertCell i c nb1) = (shown nbm)[nat i := c]"
      using s2(1) il by (simp add: upd_conv_take_nth_drop)
    with s1 s2 ListSet d sm mm show ?thesis by simp
  next
    case ListOther
    with d sm tm mm show ?thesis by simp
  qed
qed

lemma deliver_all_keeps_mirroring:
  "nb_model nb = Some m \<Longrightarrow> shown nb = cells m \<Longrightarrow> tidy nb \<Longrightarrow>
   valid_changes changes (cells m) \<Longrightarrow>
   \<exists>nb' m'. deliver_all changes nb = Inr nb' \<and> nb_model nb' = Some m' \<and>
            shown nb' = cells m' \<and> tidy nb'"
proof (induction changes arbitrary: nb m)
  case Nil
  then show ?case by simp
next
  case (Cons args rest)
  from Cons.prems(4) have v: "valid_change args (cells m)" "\<not> moves_far args"
    "valid_changes rest (apply_change args (cells m))"
    by simp_all
  let ?m1 = "m\<lparr>cells := apply_change args (cells m)\<rparr>"
  from deliver_keeps_mirroring [OF Cons.prems(1,2,3) v(1,2)]
  obtain nb1 where s1: "deliver args nb = Inr nb1" "nb_model nb1 = Some ?m1"
    "shown nb1 = apply_change args (cells m)" "tidy nb1"
    by blast
  have "shown nb1 = cells ?m1" "valid_changes rest (cells ?m1)"
    using s1(3) v(3) by simp_all
  from Cons.IH [OF s1(2) this(1) s1(4) this(2)] s1(1) show ?case by simp
qed

lemma insertCell_from_shown:
  "tidy nb \<Longrightarrow> i = int (length (nb_widgets nb)) \<Longrightarrow>
   shown (insertCell_from i cs nb) = shown nb @ cs \<and>
   tidy (insertCell_from i cs nb) \<and>
   nb_model (insertCell_from i cs nb) = nb_model nb"
proof (induction cs arbitrary: nb i)
  case Nil
  then show ?case by simp
next
  case (Cons c cs)
  let ?nb1 = "insertCell i c nb"
  from insertCell_shown [OF Cons.prems(1), of i c]
  have s1: "shown ?nb1 = take (nat i) (shown nb) @ [c] @ drop (nat i) (shown nb)"
    "tidy ?nb1" "nb_model ?nb1 = nb_model nb"
    by simp_all
  have s1': "shown ?nb1 = shown nb @ [c]"
    unfolding s1(1) using Cons.prems(2) by (simp add: length_shown)
  have "length (nb_widgets ?nb1) = Suc (length (nb_widgets nb))"
    using s1' length_shown [of ?nb1] length_shown [of nb] by simp
  then have "i + 1 = int (length (nb_widgets ?nb1))" using Cons.prems(2) by simp
  from Cons.IH [OF s1(2) this] s1' s1(3) show ?case by simp
qed

text \<open>A notebook that is given a model mirrors it.\<close>

lemma show_model_mirrors:
  "nb_model (show_model m (new_Notebook b)) = Some m \<and>
   mirrors (show_model m (new_Notebook b)) \<and> tidy (show_model m (new_Notebook b))"
proof -
  let ?nb2 = "(new_Notebook b)\<lparr>nb_model := Some m, nb_mimetype := code_mimetype m\<rparr>"
  let ?nb3 = "insertCell_from 0 (cells m) ?nb2"
  have t2: "tidy ?nb2" and w2: "0 = int (length (nb_widgets ?nb2))" and s2: "shown ?nb2 = []"
    by (simp_all add: tidy_def children_in_store_def new_Notebook_def shown_def)
  from insertCell_from_shown [OF t2 w2, of "cells m"] s2
  have s3: "shown ?nb3 = cells m" "tidy ?nb3" "nb_model ?nb3 = Some m"
    by simp_all
  have r: "show_model m (new_Notebook b) = emit ModelChanged (onModelChanged ?nb3)"
    by (simp add: show_model_def Let_def)
  have f: "nb_model (emit ModelChanged (onModelChanged ?nb3)) = nb_model ?nb3"
    "nb_widgets (emit ModelChanged (onModelChanged ?nb3)) = nb_widgets ?nb3"
    "nb_store (emit ModelChanged (onModelChanged ?nb3)) = nb_store ?nb3"
    by (simp_all add: emit_def onModelChanged_def set_activeCellIndex_frame)
  show ?thesis
    unfolding r using s3 f by (simp add: mirrors_def shown_def tidy_def children_in_store_def)
qed

text \<open>
  The children of a notebook that mirrors its model still mirror it after any
  sequence of valid changes in which no cell moves over more than one position.
\<close>

lemma near_changes_keep_mirroring:
  assumes "nb_model nb = Some m" and "mirrors nb" and "tidy nb"
    and "valid_changes changes (cells m)"
  shows "\<exists>nb'. deliver_all changes nb = Inr nb' \<and> mirrors nb' \<and> tidy nb'"
proof -
  from assms(1,2) have "shown nb = cells m" by (simp add: mirrors_def)
  from deliver_all_keeps_mirroring [OF assms(1) this assms(3,4)]
  show ?thesis by (auto simp: mirrors_def)
qed

text \<open>
  C1. The model of three cells moves its first cell to the end (\<open>oldIndex = 0\<close>,
  \<open>newIndex = 2\<close>). The static notebook, whose children mirrored the cells, moves the
  widget at index 2 to index 0 instead: the widget that was at index 0 is now at index
  1, and the children show the third, first and second cell where the model holds the
  second, third and first.
\<close>

theorem move_event_breaks_mirroring:
  "mirrors (show_model three_cells (new_Notebook False)) \<and>
   nb_widgets (show_model three_cells (new_Notebook False)) = [0, 1, 2] \<and>
   (case deliver (ListMove 0 2) (show_model three_cells (new_Notebook False)) of
      Inl e \<Rightarrow> False
    | Inr nb' \<Rightarrow>
        nb_widgets nb' = [2, 0, 1] \<and>
        map_option cells (nb_model nb') = Some [cell_b, cell_c, cell_a] \<and>
        map (\<lambda>a. widget_model (nb_store nb' ! a)) (nb_widgets nb') = [cell_c, cell_a, cell_b] \<and>
        \<not> mirrors nb')"
  by code_simp

text \<open>
  With the arguments of \<open>_moveCell\<close> in the order of its parameters
  (\<open>fromIndex = oldIndex\<close>, \<open>toIndex = newIndex\<close>) the same change is mirrored.
\<close>

lemma move_with_arguments_in_order:
  "(case moveCell 0 2
           ((show_model three_cells (new_Notebook False))
              \<lparr>nb_model := Some (three_cells\<lparr>cells := apply_change (ListMove 0 2) (cells three_cells)\<rparr>)\<rparr>) of
      Inl e \<Rightarrow> False
    | Inr nb' \<Rightarrow> nb_widgets nb' = [1, 2, 0] \<and> mirrors nb')"
  by code_simp

text \<open>
  C7. The setter of \<open>activeCellIndex\<close> stores \<open>-1\<close> without a model or without
  cells, and else the value clamped to \<open>[0, cellCount - 1]\<close>; the active cell becomes
  the child at the stored index; what it sends out is an update request, then
  \<open>activeCellChanged\<close> exactly when that child is another reference than the active
  cell before, then \<open>stateChanged\<close> exactly when the stored index is another number
  than before.
\<close>

theorem activeCellIndex_setter:
  "nb_activeCellIndex (set_activeCellIndex v nb) =
      (case cell_count nb of
         None \<Rightarrow> - 1
       | Some n \<Rightarrow> if n = 0 then - 1 else min (max v 0) (int n - 1)) \<and>
   nb_activeCell (set_activeCellIndex v nb) =
      childAt (nb_activeCellIndex (set_activeCellIndex v nb)) nb \<and>
   new_signals nb (set_activeCellIndex v nb) =
      [UpdateRequest] @
      (if childAt (nb_activeCellIndex (set_activeCellIndex v nb)) nb \<noteq> nb_activeCell nb
       then [ActiveCellChanged (childAt (nb_activeCellIndex (set_activeCellIndex v nb)) nb)]
       else []) @
      (if nb_activeCellIndex (set_activeCellIndex v nb) \<noteq> nb_activeCellIndex nb
       then [StateChanged_activeCellIndex (nb_activeCellIndex nb)
               (nb_activeCellIndex (set_activeCellIndex v nb))]
       else [])"
proof -
  have "nb_activeCellIndex (set_activeCellIndex v nb) =
      (case cell_count nb of
         None \<Rightarrow> - 1
       | Some n \<Rightarrow> if n = 0 then - 1 else min (max v 0) (int n - 1))"
    by (simp add: set_activeCellIndex_index cell_count_def split: option.splits)
  moreover note set_activeCellIndex_cell [of v nb]
  moreover have "new_signals nb (set_activeCellIndex v nb) =
      [UpdateRequest] @
      (if childAt (nb_activeCellIndex (set_activeCellIndex v nb)) nb \<noteq> nb_activeCell nb
       then [ActiveCellChanged (childAt (nb_activeCellIndex (set_activeCellIndex v nb)) nb)]
       else []) @
      (if nb_activeCellIndex (set_activeCellIndex v nb) \<noteq> nb_activeCellIndex nb
       then [StateChanged_activeCellIndex (nb_activeCellIndex nb)
               (nb_activeCellIndex (set_activeCellIndex v nb))]
       else [])"
    unfolding new_signals_def set_activeCellIndex_trace by simp
  ultimately show ?thesis by blast
qed

text \<open>
  C8, amended. For a notebook in command mode that has an active cell, setting the
  mode to \<open>edit\<close> stores the mode, leaves every child deselected, leaves the active
  cell unrendered when it is a markdown cell, and requests activation exactly when the
  notebook is not active, after which it is active. (The active cell and the children
  are objects of the store.)
\<close>

theorem set_mode_edit:
  assumes md: "nb_mode nb = command"
    and ac: "nb_activeCell nb = Widget a"
    and ia: "a < length (nb_store nb)"
    and cs: "children_in_store nb"
  shows "nb_mode (set_mode edit nb) = edit \<and>
         nb_widgets (set_mode edit nb) = nb_widgets nb \<and>
         (\<forall>x\<in>set (nb_widgets nb). \<not> selected (nb_store (set_mode edit nb) ! x)) \<and>
         (widget_class (nb_store nb ! a) = Markdown \<longrightarrow>
            \<not> rendered (nb_store (set_mode edit nb) ! a)) \<and>
         (ActivateRequest \<in> set (new_signals nb (set_mode edit nb))) = (\<not> nb_isActive nb) \<and>
         nb_isActive (set_mode edit nb)"
proof -
  have st: "\<forall>x\<in>set (nb_widgets nb). x < length (nb_store nb)"
    using cs by (simp add: children_in_store_def)
  let ?nb2 = "emit (StateChanged_mode command edit) ((update nb)\<lparr>nb_mode := edit\<rparr>)"
  let ?nb3 = "deselect_each (nb_widgets ?nb2) ?nb2"
  let ?nb4 = "if widget_class (nb_store ?nb3 ! a) = Markdown
              then ?nb3\<lparr>nb_store := (nb_store ?nb3)[a := (nb_store ?nb3 ! a)\<lparr>rendered := False\<rparr>]\<rparr>
              else ?nb3"
  let ?nb5 = "if \<not> nb_isActive ?nb4 then send_ActivateRequest ?nb4 else ?nb4"
  have f2: "nb_widgets ?nb2 = nb_widgets nb" "nb_store ?nb2 = nb_store nb"
    "nb_isActive ?nb2 = nb_isActive nb" "nb_activeCell ?nb2 = Widget a"
    "nb_trace ?nb2 = nb_trace nb @ [UpdateRequest, StateChanged_mode command edit]"
    using ac by (simp_all add: emit_def update_def)
  have r: "set_mode edit nb = ?nb5"
    using md f2(4) by (simp add: set_mode_def Let_def update_def emit_def)
  have f3: "nb_widgets ?nb3 = nb_widgets nb" "length (nb_store ?nb3) = length (nb_store nb)"
    "nb_mode ?nb3 = edit" "nb_isActive ?nb3 = nb_isActive nb"
    using f2 by (simp_all add: deselect_each_frame) (simp add: emit_def update_def)
  have s3: "\<forall>x\<in>set (nb_widgets nb). \<not> selected (nb_store ?nb3 ! x)"
    using st deselect_each_clears [of _ "nb_widgets ?nb2" ?nb2] f2 by simp
  have c3: "widget_class (nb_store ?nb3 ! a) = widget_class (nb_store nb ! a)"
    using f2 by (simp add: deselect_each_class)
  obtain ext where t3: "nb_trace ?nb3 = nb_trace ?nb2 @ ext" "ActivateRequest \<notin> set ext"
    using deselect_each_trace by blast
  have f4: "nb_widgets ?nb4 = nb_widgets nb" "length (nb_store ?nb4) = length (nb_store nb)"
    "nb_mode ?nb4 = edit" "nb_isActive ?nb4 = nb_isActive nb" "nb_trace ?nb4 = nb_trace ?nb3"
    using f3 by simp_all
  have s4: "\<forall>x\<in>set (nb_widgets nb). \<not> selected (nb_store ?nb4 ! x)"
  proof
    fix x assume x: "x \<in> set (nb_widgets nb)"
    then have "\<not> selected (nb_store ?nb3 ! x)" using s3 by blast
    moreover have "x < length (nb_store ?nb3)" using x st f3 by simp
    ultimately show "\<not> selected (nb_store ?nb4 ! x)"
      by (cases "x = a") simp_all
  qed
  have r4: "widget_class (nb_store nb ! a) = Markdown \<longrightarrow> \<not> rendered (nb_store ?nb4 ! a)"
    using c3 f3 ia by simp
  have f5: "nb_widgets ?nb5 = nb_widgets nb" "nb_store ?nb5 = nb_store ?nb4"
    "nb_mode ?nb5 = edit" "nb_isActive ?nb5"
    "nb_trace ?nb5 = nb_trace ?nb4 @ (if \<not> nb_isActive nb then [ActivateRequest, UpdateRequest] else [])"
    using f4 by (simp_all add: send_ActivateRequest_def onActivateRequest_def update_def emit_def)
  have tr: "new_signals nb ?nb5 =
      [UpdateRequest, StateChanged_mode command edit] @ ext @
      (if \<not> nb_isActive nb then [ActivateRequest, UpdateRequest] else [])"
    unfolding new_signals_def f5(5) f4(5) t3(1) f2(5) by simp
  have act: "(ActivateRequest \<in> set (new_signals nb ?nb5)) = (\<not> nb_isActive nb)"
    unfolding tr using t3(2) by simp
  show ?thesis
    unfolding r using f5(1,3,4) s4 r4 act unfolding f5(2) by blast
qed

theorem set_mode_edit_witness:
  "nb_mode (select 2 (set_activeCellIndex 1 (show_model three_cells (new_Notebook True)))) = command \<and>
   nb_activeCell (select 2 (set_activeCellIndex 1 (show_model three_cells (new_Notebook True)))) = Widget 1 \<and>
   selected (nb_store (select 2 (set_activeCellIndex 1 (show_model three_cells (new_Notebook True)))) ! 2) \<and>
   rendered (nb_store (select 2 (set_activeCellIndex 1 (show_model three_cells (new_Notebook True)))) ! 1) \<and>
   nb_mode (set_mode edit
      (select 2 (set_activeCellIndex 1 (show_model three_cells (new_Notebook True))))) = edit \<and>
   \<not> selected (nb_store (set_mode edit
      (select 2 (set_activeCellIndex 1 (show_model three_cells (new_Notebook True))))) ! 2) \<and>
   \<not> rendered (nb_store (set_mode edit
      (select 2 (set_activeCellIndex 1 (show_model three_cells (new_Notebook True))))) ! 1) \<and>
   ActivateRequest \<in> set (new_signals
      (select 2 (set_activeCellIndex 1 (show_model three_cells (new_Notebook True))))
      (set_mode edit (select 2 (set_activeCellIndex 1 (show_model three_cells (new_Notebook True))))))"
proof -
  let ?nb = "select 2 (set_activeCellIndex 1 (show_model three_cells (new_Notebook True)))"
  have h1: "nb_mode ?nb = command" by code_simp
  have h2: "nb_activeCell ?nb = Widget 1" by code_simp
  have h3: "children_in_store ?nb" unfolding children_in_store_def by code_simp
  have h4: "1 < length (nb_store ?nb)" by code_simp
  have e: "nb_widgets ?nb = [0, 1, 2]"
    "widget_class (nb_store ?nb ! 1) = Markdown" "\<not> nb_isActive ?nb"
    "selected (nb_store ?nb ! 2)" "rendered (nb_store ?nb ! 1)"
    by code_simp+
  from set_mode_edit [OF h1 h2 h4 h3] e h1 h2 show ?thesis by simp
qed

text \<open>
  C8 as stated fails at both guards of the setter. A new notebook has no active cell:
  set to \<open>edit\<close> while not active, it stores the mode and requests no activation. A
  notebook already in edit mode whose third child has been selected keeps it selected
  when the mode is set to \<open>edit\<close> again.
\<close>

theorem set_mode_edit_counterexample:
  "\<not> nb_isActive (new_Notebook True) \<and>
   new_signals (new_Notebook True) (set_mode edit (new_Notebook True)) =
     [UpdateRequest, StateChanged_mode command edit] \<and>
   \<not> nb_isActive (set_mode edit (new_Notebook True)) \<and>
   nb_mode (select 2 (set_mode edit (show_model three_cells (new_Notebook True)))) = edit \<and>
   nb_widgets (set_mode edit
      (select 2 (set_mode edit (show_model three_cells (new_Notebook True))))) = [0, 1, 2] \<and>
   selected (nb_store (set_mode edit
      (select 2 (set_mode edit (show_model three_cells (new_Notebook True))))) ! 2)"
  by code_simp

text \<open>
  C9, amended. In a notebook whose children are as many as the cells of its model and
  whose stored index is within the cells, a top-edge signal moves the active index by
  \<open>-1\<close> and a bottom-edge signal by \<open>+1\<close>, clamped to the first and the last cell;
  when the index has moved, the child at the new index is the active cell, and its
  editor's cursor is at column 0 of its last line after a top-edge signal and at
  position 0 after a bottom-edge signal.
\<close>

theorem edge_request_moves_active_cell:
  assumes "nb_model nb = Some m"
    and "length (nb_widgets nb) = length (cells m)"
    and "0 \<le> nb_activeCellIndex nb" and "nb_activeCellIndex nb < int (length (cells m))"
    and "children_in_store nb"
  shows "(\<exists>nb'. onEdgeRequest top_edge nb = Inr nb' \<and>
           activeCellIndex nb' = max 0 (activeCellIndex nb - 1) \<and>
           (0 < activeCellIndex nb \<longrightarrow>
              nb_activeCell nb' = Widget (nb_widgets nb ! nat (activeCellIndex nb - 1)) \<and>
              editor_cursor (nb_store nb' ! (nb_widgets nb ! nat (activeCellIndex nb - 1))) =
                LineCh (getLastLine (nb_store nb ! (nb_widgets nb ! nat (activeCellIndex nb - 1)))) 0)) \<and>
         (\<exists>nb'. onEdgeRequest bottom_edge nb = Inr nb' \<and>
           activeCellIndex nb' = min (int (length (cells m)) - 1) (activeCellIndex nb + 1) \<and>
           (activeCellIndex nb < int (length (cells m)) - 1 \<longrightarrow>
              nb_activeCell nb' = Widget (nb_widgets nb ! nat (activeCellIndex nb + 1)) \<and>
              editor_cursor (nb_store nb' ! (nb_widgets nb ! nat (activeCellIndex nb + 1))) =
                Position 0))"
  using edge_top [OF assms] edge_bottom [OF assms] by blast

theorem edge_request_moves_active_cell_witness:
  "activeCellIndex (set_activeCellIndex 1 (show_model three_cells (new_Notebook True))) = 1 \<and>
   (\<exists>nb'. onEdgeRequest top_edge
             (set_activeCellIndex 1 (show_model three_cells (new_Notebook True))) = Inr nb' \<and>
          activeCellIndex nb' = 0 \<and> nb_activeCell nb' = Widget 0 \<and>
          editor_cursor (nb_store nb' ! 0) = LineCh 0 0) \<and>
   (\<exists>nb'. onEdgeRequest bottom_edge
             (set_activeCellIndex 1 (show_model three_cells (new_Notebook True))) = Inr nb' \<and>
          activeCellIndex nb' = 2 \<and> nb_activeCell nb' = Widget 2 \<and>
          editor_cursor (nb_store nb' ! 2) = Position 0)"
proof -
  let ?nb = "set_activeCellIndex 1 (show_model three_cells (new_Notebook True))"
  have h1: "nb_model ?nb = Some three_cells" by code_simp
  have h2: "length (nb_widgets ?nb) = length (cells three_cells)" by code_simp
  have h3: "0 \<le> nb_activeCellIndex ?nb" by code_simp
  have h4: "nb_activeCellIndex ?nb < int (length (cells three_cells))" by code_simp
  have h5: "children_in_store ?nb" unfolding children_in_store_def by code_simp
  have e: "activeCellIndex ?nb = 1" "nb_widgets ?nb = [0, 1, 2]"
    "getLastLine (nb_store ?nb ! 0) = 0" "length (cells three_cells) = 3"
    by code_simp+
  from edge_request_moves_active_cell [OF h1 h2 h3 h4 h5] e show ?thesis by simp
qed

text \<open>
  C9 as stated fails twice. A top-edge signal at the second cell makes the first
  cell, whose text is \<open>ab\<close>, active with its cursor at line 0, column 0, while the end
  of its last line is line 0, column 2. A top-edge signal at the first cell leaves the
  active index at 0.
\<close>

theorem edge_request_counterexample:
  "activeCellIndex (set_activeCellIndex 1 (show_model three_cells (new_Notebook True))) = 1 \<and>
   (case onEdgeRequest top_edge
           (set_activeCellIndex 1 (show_model three_cells (new_Notebook True))) of
      Inl e \<Rightarrow> False
    | Inr nb' \<Rightarrow>
        activeCellIndex nb' = 0 \<and> nb_activeCell nb' = Widget 0 \<and>
        editor_lines (nb_store nb' ! 0) = [''ab''] \<and>
        editor_cursor (nb_store nb' ! 0) = LineCh 0 0 \<and>
        end_of_last_line (nb_store nb' ! 0) = LineCh 0 2) \<and>
   activeCellIndex (show_model three_cells (new_Notebook True)) = 0 \<and>
   (case onEdgeRequest top_edge (show_model three_cells (new_Notebook True)) of
      Inl e \<Rightarrow> False
    | Inr nb' \<Rightarrow> activeCellIndex nb' = 0)"
  by code_simp

end
